theory Spec2Isabelle
  imports Complex_Main
begin

section \<open>Data model\<close>

text \<open>
  The model object of \<^verbatim>\<open>ModelHawkesSumExpCustomLag\<close> with the fields the source file
  reads and writes. A C++ \<^verbatim>\<open>double\<close> is modelled by a real number (rounding, infinities
  and NaN are outside the model), an \<^verbatim>\<open>ulong\<close> index or count by a natural number (no
  count comes near \<open>2 ^ 64\<close>; the one decrement that can wrap is written out), an
  \<^verbatim>\<open>ArrayDouble\<close> by a list and an \<^verbatim>\<open>ArrayDouble2d\<close> by the list of its cells in row
  order, addressed with \<open>get_index\<close> as the source does. The parallel passes over the
  dimensions run in index order, one dimension after the other.

  \<open>get_alpha_u_i_j_index\<close> is declared in the class header, which is not among the
  sources; it is a parameter of the model.
\<close>

datatype error = InvalidState | DomainError | OutOfBounds

record model =
  decays :: "real list"
  lags :: "real list"
  MaxN_of_f :: nat
  get_alpha_u_i_j_index :: "nat \<Rightarrow> nat \<Rightarrow> nat \<Rightarrow> nat"
  n_nodes :: nat
  n_total_jumps :: nat
  n_jumps_per_node :: "nat list"
  timestamps :: "real list list"
  end_time :: real
  weights_computed :: bool
  global_n :: "nat list"
  global_timestamps :: "real list"
  type_n :: "nat list"
  Total_events :: nat
  g :: "real list list"
  G :: "real list list"
  sum_G :: "real list list"
  H1 :: "real list list"
  H2 :: "real list list"
  H3 :: "real list list"

text \<open>\<^verbatim>\<open>get_n_decays()\<close> of the header: the number of kernels, \<^verbatim>\<open>decays.size()\<close>.\<close>

definition get_n_decays :: "model \<Rightarrow> nat" where
  "get_n_decays m = length (decays m)"

text \<open>The lambda \<^verbatim>\<open>get_index\<close> of \<^verbatim>\<open>compute_weights_dim_i\<close>, \<^verbatim>\<open>loss_dim_i\<close> and
  \<^verbatim>\<open>grad_dim_i\<close>.\<close>

definition get_index :: "model \<Rightarrow> nat \<Rightarrow> nat \<Rightarrow> nat \<Rightarrow> nat" where
  "get_index m k j u = n_nodes m * get_n_decays m * k + get_n_decays m * j + u"

text \<open>\<^verbatim>\<open>init_to_zero\<close> of an array keeps its size.\<close>

definition init_to_zero :: "real list \<Rightarrow> real list" where
  "init_to_zero xs = map (\<lambda>_. 0) xs"

section \<open>Binding the data\<close>

text \<open>Modelled from the spec: \<^verbatim>\<open>ModelHawkesSingle::set_data\<close> of the base class, which is
  not among the sources. It stores the per-stream timestamp arrays and the horizon, counts
  the streams and the events of each stream, sums the counts to the total number of
  merged events, and drops the weight cache (the cache lives until new data is bound).\<close>

definition base_set_data :: "real list list \<Rightarrow> real \<Rightarrow> model \<Rightarrow> model" where
  "base_set_data tss T m =
     m\<lparr>timestamps := tss, end_time := T, n_nodes := length tss,
       n_jumps_per_node := map length tss,
       n_total_jumps := sum_list (map length tss),
       weights_computed := False\<rparr>"

text \<open>Modelled from the spec: the sort of an array that also returns the permutation
  (\<^verbatim>\<open>global_timestamps.sort(tmp_index)\<close>), which belongs to the array library: a stable
  sort by timestamp of the values paired with their positions.\<close>

definition sort_index :: "real list \<Rightarrow> (real \<times> nat) list" where
  "sort_index xs = sort_key fst (zip xs [0..<length xs])"

definition set_data :: "real list list \<Rightarrow> nat list \<Rightarrow> real \<Rightarrow> model \<Rightarrow> model" where
  "set_data tss gn T m0 =
     (let m = base_set_data tss T m0;
          M = n_total_jumps m;
          gl_n = map (\<lambda>k. gn ! k) [0..<M + 1];
          merged = 0 # concat (map (\<lambda>j. map (\<lambda>k. timestamps m ! j ! k)
                                  [0..<n_jumps_per_node m ! j]) [0..<n_nodes m]);
          tmp_pre_type_n = 0 # concat (map (\<lambda>j. replicate (n_jumps_per_node m ! j) (j + 1))
                                  [0..<n_nodes m]);
          srt = sort_index merged;
          tmp_index = map snd srt;
          ty = 0 # map (\<lambda>k. tmp_pre_type_n ! (tmp_index ! k)) [1..<M + 1]
      in m\<lparr>global_n := gl_n, global_timestamps := map fst srt, type_n := ty,
           n_nodes := (n_nodes m + 2 ^ 64 - 1) mod 2 ^ 64\<rparr>)"

section \<open>Allocating the weights\<close>

definition allocate_step :: "nat \<Rightarrow> model \<Rightarrow> model" where
  "allocate_step i m =
     (let U = length (decays m);
          zeros2d = replicate ((n_total_jumps m + 2) * (n_nodes m * U)) 0
      in m\<lparr>g := (if i = 0 then (g m)[i := zeros2d] else g m),
           G := (G m)[i := zeros2d],
           sum_G := (sum_G m)[i := replicate (n_nodes m * U) 0],
           H1 := (H1 m)[i := replicate (MaxN_of_f m) 0],
           H2 := (H2 m)[i := replicate (MaxN_of_f m) 0],
           H3 := (H3 m)[i := replicate (MaxN_of_f m * U) 0]\<rparr>)"

definition allocate_weights :: "model \<Rightarrow> error + model" where
  "allocate_weights m =
     (if n_nodes m = 0 then Inl InvalidState
      else
        let m1 = m\<lparr>Total_events := n_total_jumps m - n_jumps_per_node m ! n_nodes m,
                   g := replicate (n_nodes m) [], G := replicate (n_nodes m) [],
                   sum_G := replicate (n_nodes m) [],
                   H1 := replicate (n_nodes m) [], H2 := replicate (n_nodes m) [],
                   H3 := replicate (n_nodes m) []\<rparr>
        in Inr (fold allocate_step [0..<n_nodes m] m1))"

section \<open>Computing the weights\<close>

text \<open>A loop whose body can fail: the first failure ends the loop.\<close>

fun foldE :: "('a \<Rightarrow> 's \<Rightarrow> error + 's) \<Rightarrow> 'a list \<Rightarrow> 's \<Rightarrow> error + 's" where
  "foldE f [] s = Inr s"
| "foldE f (x # xs) s = (case f x s of Inl e \<Rightarrow> Inl e | Inr s' \<Rightarrow> foldE f xs s')"

text \<open>
  The \<^verbatim>\<open>while\<close> loop of \<^verbatim>\<open>compute_weights_dim_i\<close> that folds the newly eligible events
  of source dimension \<open>j\<close> into \<open>g\<close> and \<open>G\<close> at step \<open>k\<close>. The scan pointer
  \<open>last_scanned_index\<close> is data dependent: a read of \<open>global_timestamps\<close> or \<open>type_n\<close>
  past the end of the array (undefined behaviour in C++) is the result \<open>Inl OutOfBounds\<close>.
  All other array accesses of the file use loop counters as indices and are modelled by
  plain list access.
\<close>

function scan ::
  "model \<Rightarrow> nat \<Rightarrow> nat \<Rightarrow> nat \<Rightarrow> nat \<Rightarrow> real \<Rightarrow> real \<Rightarrow> real \<Rightarrow> nat \<Rightarrow> real list \<Rightarrow> real list
     \<Rightarrow> error + nat \<times> real list \<times> real list" where
  "scan m i j u k t_k decay lag last_scanned_index g_i G_i =
     (if length (global_timestamps m) \<le> last_scanned_index then Inl OutOfBounds
      else if global_timestamps m ! last_scanned_index < t_k - lag then
        (if length (type_n m) \<le> last_scanned_index then Inl OutOfBounds
         else
           let hit = (type_n m ! last_scanned_index = j + 1);
               delta_t = t_k - lag - global_timestamps m ! last_scanned_index;
               g1 = (if hit \<and> i = 0
                     then g_i[get_index m k j u :=
                            g_i ! get_index m k j u + decay * exp (- decay * delta_t)]
                     else g_i);
               G1 = (if hit
                     then G_i[get_index m k j u :=
                            G_i ! get_index m k j u + (1 - exp (- decay * delta_t))]
                     else G_i)
           in if last_scanned_index + 1 > n_total_jumps m
              then Inr (last_scanned_index + 1, g1, G1)
              else scan m i j u k t_k decay lag (last_scanned_index + 1) g1 G1)
      else Inr (last_scanned_index, g_i, G_i))"
  by pat_completeness auto
termination
  by (relation "measure (\<lambda>(m, i, j, u, k, t_k, decay, lag, p, g_i, G_i). n_total_jumps m + 1 - p)")
     auto

text \<open>The body of the loop over \<open>k\<close> for one kernel \<open>u\<close> and one source dimension \<open>j\<close>.\<close>

definition weights_step ::
  "model \<Rightarrow> nat \<Rightarrow> nat \<Rightarrow> nat \<Rightarrow> real \<Rightarrow> real \<Rightarrow> nat \<Rightarrow> nat \<times> real list \<times> real list
     \<Rightarrow> error + nat \<times> real list \<times> real list" where
  "weights_step m i j u decay lag k st =
     (case st of (last_scanned_index, g_i, G_i) \<Rightarrow>
        let t_k = (if k \<noteq> 1 + n_total_jumps m then global_timestamps m ! k else end_time m);
            ebt = exp (- decay * (t_k - global_timestamps m ! (k - 1)));
            G1 = G_i[get_index m k j u := (1 - ebt) / decay * g_i ! get_index m (k - 1) j u];
            g1 = (if i = 0
                  then g_i[get_index m k j u := g_i ! get_index m (k - 1) j u * ebt]
                  else g_i)
        in scan m i j u k t_k decay lag last_scanned_index g1 G1)"

text \<open>The loop over \<open>k\<close>, with the scan pointer starting at 1.\<close>

definition weights_pass ::
  "model \<Rightarrow> nat \<Rightarrow> nat \<Rightarrow> real \<Rightarrow> real \<Rightarrow> nat \<Rightarrow> real list \<times> real list
     \<Rightarrow> error + real list \<times> real list" where
  "weights_pass m i u decay lag j gG =
     (case foldE (weights_step m i j u decay lag) [1..<1 + n_total_jumps m + 1]
             (1, fst gG, snd gG) of
        Inl e \<Rightarrow> Inl e
      | Inr (last_scanned_index, g_i, G_i) \<Rightarrow> Inr (g_i, G_i))"

text \<open>The loops over the kernels and the source dimensions.\<close>

definition weights_gG :: "model \<Rightarrow> nat \<Rightarrow> real list \<times> real list \<Rightarrow> error + real list \<times> real list" where
  "weights_gG m i gG =
     foldE (\<lambda>u. foldE (weights_pass m i u (decays m ! u) (lags m ! u)) [0..<n_nodes m])
       [0..<length (decays m)] gG"

text \<open>The sufficient statistics \<open>H1\<close>, \<open>H2\<close> and \<open>H3\<close> of dimension \<open>i\<close>.\<close>

definition H12_step :: "model \<Rightarrow> nat \<Rightarrow> nat \<Rightarrow> real list \<times> real list \<Rightarrow> real list \<times> real list" where
  "H12_step m i k HH =
     (case HH of (H1_i, H2_i) \<Rightarrow>
        let H1a = (if k \<noteq> 1 + n_total_jumps m
                   then H1_i[global_n m ! (k - 1) :=
                          H1_i ! (global_n m ! (k - 1)) + (if type_n m ! k = i + 1 then 1 else 0)]
                   else H1_i);
            t_k = (if k \<noteq> 1 + n_total_jumps m then global_timestamps m ! k else end_time m)
        in (H1a, H2_i[global_n m ! (k - 1) :=
                   H2_i ! (global_n m ! (k - 1)) - (t_k - global_timestamps m ! (k - 1))]))"

definition H3_step :: "model \<Rightarrow> nat \<Rightarrow> real list \<Rightarrow> nat \<Rightarrow> nat \<Rightarrow> real list \<Rightarrow> real list" where
  "H3_step m i G_i u k H3_i =
     (let U = length (decays m)
      in H3_i[global_n m ! (k - 1) * U + u :=
           H3_i ! (global_n m ! (k - 1) * U + u) - G_i ! get_index m k i u])"

definition compute_weights_dim_i :: "nat \<Rightarrow> model \<Rightarrow> error + model" where
  "compute_weights_dim_i i m =
     (case weights_gG m i (g m ! 0, G m ! i) of
        Inl e \<Rightarrow> Inl e
      | Inr (g_i, G_i) \<Rightarrow>
          let U = length (decays m);
              H1_i = H1 m ! i;
              H1a = H1_i[global_n m ! n_total_jumps m :=
                      H1_i ! (global_n m ! n_total_jumps m) - 1];
              H12 = fold (H12_step m i) [1..<1 + n_total_jumps m + 1] (H1a, H2 m ! i);
              H3_i = fold (\<lambda>u. fold (H3_step m i G_i u) [1..<1 + n_total_jumps m + 1])
                       [0..<U] (H3 m ! i)
          in Inr (m\<lparr>g := (g m)[0 := g_i], G := (G m)[i := G_i],
                    H1 := (H1 m)[i := fst H12], H2 := (H2 m)[i := snd H12],
                    H3 := (H3 m)[i := H3_i]\<rparr>))"

text \<open>Modelled from the spec: \<^verbatim>\<open>compute_weights\<close> of the base class, which is not among
  the sources. The Weight Allocator runs, then the Recursive Kernel Evaluator once for every
  dimension \<open>0..D-1\<close>, and the result is cached (the flag \<open>weights_computed\<close>) until new
  data is bound.\<close>

definition compute_weights :: "model \<Rightarrow> error + model" where
  "compute_weights m =
     (case allocate_weights m of
        Inl e \<Rightarrow> Inl e
      | Inr m1 \<Rightarrow>
          (case foldE compute_weights_dim_i [0..<n_nodes m1] m1 of
             Inl e \<Rightarrow> Inl e
           | Inr m2 \<Rightarrow> Inr (m2\<lparr>weights_computed := True\<rparr>)))"

text \<open>The guard \<^verbatim>\<open>if (!weights_computed) compute_weights();\<close> that opens \<^verbatim>\<open>loss\<close> and
  \<^verbatim>\<open>grad\<close>.\<close>

definition ensure_weights :: "model \<Rightarrow> error + model" where
  "ensure_weights m = (if \<not> weights_computed m then compute_weights m else Inr m)"

section \<open>The loss\<close>

text \<open>The local array \<open>f_i\<close> that \<^verbatim>\<open>loss_dim_i\<close> and \<^verbatim>\<open>grad_dim_i\<close> copy out of the
  coefficient vector.\<close>

definition f_of :: "model \<Rightarrow> nat \<Rightarrow> real list \<Rightarrow> real list" where
  "f_of m i coeffs =
     map (\<lambda>k. coeffs ! (n_nodes m + n_nodes m * n_nodes m * length (decays m)
                          + i * MaxN_of_f m + k))
       [0..<MaxN_of_f m]"

text \<open>The inner double loop that \<^verbatim>\<open>loss_dim_i\<close> (as \<open>tmp_s\<close>) and \<^verbatim>\<open>grad_dim_i\<close> (as
  \<open>denominator\<close>, twice) run at step \<open>k\<close>: it starts from \<open>mu_i\<close> and adds
  \<open>alpha_u_i_j * g_i[get_index(k, j, u)]\<close> for every \<open>j\<close> and \<open>u\<close>.\<close>

definition intensity_loop :: "model \<Rightarrow> nat \<Rightarrow> real list \<Rightarrow> nat \<Rightarrow> real" where
  "intensity_loop m i coeffs k =
     fold (\<lambda>j. fold (\<lambda>u tmp_s.
                  tmp_s + coeffs ! get_alpha_u_i_j_index m u i j * (g m ! 0) ! get_index m k j u)
             [0..<length (decays m)])
       [0..<n_nodes m] (coeffs ! i)"

text \<open>The loop that \<^verbatim>\<open>loss_dim_i\<close> and \<^verbatim>\<open>grad_dim_i\<close> run for every \<open>j\<close> and \<open>u\<close>
  to obtain \<open>sum_G_i_j_u\<close>.\<close>

definition sum_G_loop :: "model \<Rightarrow> nat \<Rightarrow> real list \<Rightarrow> nat \<Rightarrow> nat \<Rightarrow> real" where
  "sum_G_loop m i f_i j u =
     fold (\<lambda>k sum_G_i_j_u.
             sum_G_i_j_u + (G m ! i) ! get_index m k j u * f_i ! (global_n m ! (k - 1)))
       [1..<1 + n_total_jumps m + 1] 0"

definition term2_step :: "model \<Rightarrow> nat \<Rightarrow> real list \<Rightarrow> nat \<Rightarrow> real \<Rightarrow> error + real" where
  "term2_step m i coeffs k loss_acc =
     (if type_n m ! k = i + 1
      then let tmp_s = intensity_loop m i coeffs k
           in if tmp_s \<le> 0 then Inl DomainError else Inr (loss_acc + ln tmp_s)
      else Inr loss_acc)"

definition loss_dim_i :: "nat \<Rightarrow> real list \<Rightarrow> model \<Rightarrow> error + real \<times> model" where
  "loss_dim_i i coeffs m =
     (let mu_i = coeffs ! i;
          f_i = f_of m i coeffs;
          loss1 = fold (\<lambda>k loss_acc.
                          if type_n m ! k = i + 1
                          then loss_acc + ln (f_i ! (global_n m ! (k - 1)))
                          else loss_acc)
                    [1..<n_total_jumps m + 1] 0
      in case foldE (term2_step m i coeffs) [1..<n_total_jumps m + 1] loss1 of
           Inl e \<Rightarrow> Inl e
         | Inr loss2 \<Rightarrow>
             let loss3 = fold (\<lambda>k loss_acc.
                                 loss_acc - mu_i * (global_timestamps m ! k
                                                     - global_timestamps m ! (k - 1))
                                              * f_i ! (global_n m ! (k - 1)))
                           [1..<n_total_jumps m + 1] loss2;
                 loss4 = loss3 - mu_i * (end_time m - global_timestamps m ! n_total_jumps m)
                                   * f_i ! (global_n m ! n_total_jumps m);
                 m' = m\<lparr>sum_G := (sum_G m)[i := init_to_zero (sum_G m ! i)]\<rparr>;
                 loss5 = fold (\<lambda>j. fold (\<lambda>u loss_acc.
                                 loss_acc - coeffs ! get_alpha_u_i_j_index m u i j
                                              * sum_G_loop m i f_i j u)
                               [0..<length (decays m)])
                           [0..<n_nodes m] loss4
             in Inr (- end_time m - loss5, m'))"

text \<open>Modelled from the spec: \<^verbatim>\<open>parallel_map_additive_reduce\<close> of the thread-pool utility,
  which is not among the sources: it invokes the per-index function for every index and
  combines the results additively. An error raised by one task ends the call.\<close>

fun parallel_map_additive_reduce ::
  "(nat \<Rightarrow> model \<Rightarrow> error + real \<times> model) \<Rightarrow> nat list \<Rightarrow> real \<Rightarrow> model \<Rightarrow> (error + real) \<times> model" where
  "parallel_map_additive_reduce f [] acc m = (Inr acc, m)"
| "parallel_map_additive_reduce f (i # is) acc m =
     (case f i m of
        Inl e \<Rightarrow> (Inl e, m)
      | Inr (v, m') \<Rightarrow> parallel_map_additive_reduce f is (acc + v) m')"

text \<open>\<^verbatim>\<open>loss\<close> returns the value or the error raised, and the object after the call.\<close>

definition loss :: "real list \<Rightarrow> model \<Rightarrow> (error + real) \<times> model" where
  "loss coeffs m =
     (case ensure_weights m of
        Inl e \<Rightarrow> (Inl e, m)
      | Inr m1 \<Rightarrow>
          (case parallel_map_additive_reduce (\<lambda>i. loss_dim_i i coeffs) [0..<n_nodes m1] 0 m1 of
             (Inl e, m2) \<Rightarrow> (Inl e, m2)
           | (Inr loss_sum, m2) \<Rightarrow> (Inr (loss_sum / real (Total_events m2)), m2)))"

section \<open>The gradient\<close>

text \<open>The flag that the two event loops of \<^verbatim>\<open>grad_dim_i\<close> compute at step \<open>k\<close>.\<close>

definition tmp_flag :: "model \<Rightarrow> nat \<Rightarrow> nat \<Rightarrow> bool" where
  "tmp_flag m i k =
     (if k = n_total_jumps m + 1 then True
      else if type_n m ! k = i + 1 then True
      else False)"

definition grad_dim_i :: "nat \<Rightarrow> real list \<Rightarrow> model \<Rightarrow> real list \<Rightarrow> real list" where
  "grad_dim_i i coeffs m out =
     (let mu_i = coeffs ! i;
          U = length (decays m);
          f_i = f_of m i coeffs;
          out1 = out[i := 0];
          out2 = fold (\<lambda>k out.
                         if tmp_flag m i k
                         then out[i := out ! i + 1 / intensity_loop m i coeffs k]
                         else out)
                   [1..<n_total_jumps m + 1] out1;
          out3 = fold (\<lambda>k out.
                         let t_k = (if k \<noteq> n_total_jumps m + 1 then global_timestamps m ! k
                                    else end_time m)
                         in out[i := out ! i - (t_k - global_timestamps m ! (k - 1))
                                                 * f_i ! (global_n m ! (k - 1))])
                   [1..<1 + n_total_jumps m + 1] out2;
          out4 = fold (\<lambda>k out.
                         if tmp_flag m i k
                         then let denominator = intensity_loop m i coeffs k
                              in fold (\<lambda>j. fold (\<lambda>u out.
                                     out[get_alpha_u_i_j_index m u i j :=
                                           out ! get_alpha_u_i_j_index m u i j
                                           + (g m ! 0) ! get_index m k j u / denominator])
                                   [0..<U])
                                   [0..<n_nodes m] out
                         else out)
                   [1..<1 + n_total_jumps m + 1] out3;
          out5 = fold (\<lambda>j. fold (\<lambda>u out.
                         out[get_alpha_u_i_j_index m u i j :=
                               out ! get_alpha_u_i_j_index m u i j - sum_G_loop m i f_i j u])
                       [0..<U])
                   [0..<n_nodes m] out4;
          grad_f_i = map (\<lambda>n.
                        let result_dot = fold (\<lambda>j. fold (\<lambda>u result_dot.
                                             result_dot + coeffs ! get_alpha_u_i_j_index m u i j
                                                            * (H3 m ! j) ! (n * U + u))
                                           [0..<U])
                                           [0..<n_nodes m] 0
                        in (H1 m ! i) ! n / f_i ! n + mu_i * (H2 m ! i) ! n + result_dot)
                       [0..<MaxN_of_f m]
      in fold (\<lambda>k out.
                 out[n_nodes m + n_nodes m * n_nodes m * U + i * MaxN_of_f m + k := grad_f_i ! k])
           [0..<MaxN_of_f m] out5)"

text \<open>Modelled from the spec: \<^verbatim>\<open>get_n_coeffs()\<close> of the header, the length
  \<open>D + D\<^sup>2 U + D S\<close> of the coefficient vector.\<close>

definition get_n_coeffs :: "model \<Rightarrow> nat" where
  "get_n_coeffs m =
     n_nodes m + n_nodes m * n_nodes m * length (decays m) + n_nodes m * MaxN_of_f m"

text \<open>The pass of \<^verbatim>\<open>grad\<close> over the dimensions (\<^verbatim>\<open>parallel_run\<close>), after \<^verbatim>\<open>out.fill(0)\<close>
  and before the division by \<open>Total_events\<close> and the negation.\<close>

definition grad_pass :: "real list \<Rightarrow> model \<Rightarrow> real list \<Rightarrow> real list" where
  "grad_pass coeffs m out = fold (\<lambda>i. grad_dim_i i coeffs m) [0..<n_nodes m] (map (\<lambda>_. 0) out)"

text \<open>\<^verbatim>\<open>grad\<close> returns the vector written to \<open>out\<close> or the error raised, and the object after
  the call.\<close>

definition grad :: "real list \<Rightarrow> real list \<Rightarrow> model \<Rightarrow> (error + real list) \<times> model" where
  "grad coeffs out m =
     (case ensure_weights m of
        Inl e \<Rightarrow> (Inl e, m)
      | Inr m1 \<Rightarrow>
          let out1 = grad_pass coeffs m1 out;
              out2 = map (\<lambda>x. x / real (Total_events m1)) out1;
              out3 = fold (\<lambda>k out. out[k := - out ! k]) [0..<get_n_coeffs m1] out2
          in (Inr out3, m1))"

section \<open>A small bound dataset\<close>

text \<open>The constructor: it stores the kernel specification and the size of the
  link-function table; no data is bound yet.\<close>

definition new_model ::
  "real list \<Rightarrow> real list \<Rightarrow> nat \<Rightarrow> (nat \<Rightarrow> nat \<Rightarrow> nat \<Rightarrow> nat) \<Rightarrow> model" where
  "new_model ds ls S aidx =
     \<lparr>decays = ds, lags = ls, MaxN_of_f = S, get_alpha_u_i_j_index = aidx,
      n_nodes = 0, n_total_jumps = 0, n_jumps_per_node = [], timestamps = [], end_time = 0,
      weights_computed = False, global_n = [], global_timestamps = [], type_n = [],
      Total_events = 0, g = [], G = [], sum_G = [], H1 = [], H2 = [], H3 = []\<rparr>"

text \<open>One modelled dimension with a single event at time 1, an empty auxiliary stream,
  horizon 2, one kernel with decay 1 and lag 0, one state; the coefficient vector is
  laid out as \<open>[mu_0, alpha_0_0_0, f_0[0]]\<close>.\<close>

definition ex_object :: model where
  "ex_object = new_model [1] [0] 1 (\<lambda>u i j. 1 + i + j + u)"

definition ex_bound :: model where
  "ex_bound = set_data [[1], []] [0, 0] 2 ex_object"

text \<open>The weights of the small dataset, as \<open>compute_weights\<close> leaves them.\<close>

definition ex_weights :: model where
  "ex_weights =
     ex_bound\<lparr>weights_computed := True, Total_events := 1,
              g := [[0, 0, exp (- 1)]], G := [[0, 0, 1 - exp (- 1)]], sum_G := [[0]],
              H1 := [[0]], H2 := [[- 2]], H3 := [[exp (- 1) - 1]]\<rparr>"

section \<open>The quantities of the specification\<close>

text \<open>
  The quantities of the loss: the events of dimension \<open>i\<close> on the merged timeline, the
  conditional intensity at an event (the argument of the logarithm of term B), and the time
  \<open>t_k\<close> with the terminal step at the horizon. \<open>loop_A\<close>, \<open>loop_C\<close> and \<open>loop_D\<close> are the
  sums that the loops of \<^verbatim>\<open>loss_dim_i\<close> accumulate, with the link values read from the
  local array \<open>f_i\<close>, and \<open>loss_dim_value\<close> is the value that \<^verbatim>\<open>loss_dim_i\<close> returns.
\<close>

definition events_of :: "model \<Rightarrow> nat \<Rightarrow> nat list" where
  "events_of m i = filter (\<lambda>k. type_n m ! k = i + 1) [1..<n_total_jumps m + 1]"

definition intensity :: "model \<Rightarrow> real list \<Rightarrow> nat \<Rightarrow> nat \<Rightarrow> real" where
  "intensity m coeffs i k =
     coeffs ! i + (\<Sum>j\<leftarrow>[0..<n_nodes m]. \<Sum>u\<leftarrow>[0..<length (decays m)].
                     coeffs ! get_alpha_u_i_j_index m u i j * (g m ! 0) ! get_index m k j u)"

definition t_at :: "model \<Rightarrow> nat \<Rightarrow> real" where
  "t_at m k = (if k = n_total_jumps m + 1 then end_time m else global_timestamps m ! k)"

definition loop_A :: "model \<Rightarrow> real list \<Rightarrow> nat \<Rightarrow> real" where
  "loop_A m coeffs i = (\<Sum>k\<leftarrow>events_of m i. ln (f_of m i coeffs ! (global_n m ! (k - 1))))"

definition term_B :: "model \<Rightarrow> real list \<Rightarrow> nat \<Rightarrow> real" where
  "term_B m coeffs i = (\<Sum>k\<leftarrow>events_of m i. ln (intensity m coeffs i k))"

definition loop_C :: "model \<Rightarrow> real list \<Rightarrow> nat \<Rightarrow> real" where
  "loop_C m coeffs i =
     - (\<Sum>k\<leftarrow>[1..<n_total_jumps m + 2].
          coeffs ! i * (t_at m k - global_timestamps m ! (k - 1)) * f_of m i coeffs ! (global_n m ! (k - 1)))"

definition loop_D :: "model \<Rightarrow> real list \<Rightarrow> nat \<Rightarrow> real" where
  "loop_D m coeffs i =
     - (\<Sum>j\<leftarrow>[0..<n_nodes m]. \<Sum>u\<leftarrow>[0..<length (decays m)].
          coeffs ! get_alpha_u_i_j_index m u i j
          * (\<Sum>k\<leftarrow>[1..<n_total_jumps m + 2].
               (G m ! i) ! get_index m k j u * f_of m i coeffs ! (global_n m ! (k - 1))))"

definition admissible_dim :: "model \<Rightarrow> real list \<Rightarrow> nat \<Rightarrow> bool" where
  "admissible_dim m coeffs i = list_all (\<lambda>k. 0 < intensity m coeffs i k) (events_of m i)"

definition admissible :: "model \<Rightarrow> real list \<Rightarrow> bool" where
  "admissible m coeffs = list_all (admissible_dim m coeffs) [0..<n_nodes m]"

definition loss_dim_value :: "model \<Rightarrow> real list \<Rightarrow> nat \<Rightarrow> real" where
  "loss_dim_value m coeffs i =
     - end_time m - (loop_A m coeffs i + term_B m coeffs i + loop_C m coeffs i + loop_D m coeffs i)"

text \<open>
  The entry of the mu-gradient as the specification words it (before normalisation and
  negation): \<open>1 / denominator\<close> over every event of dimension \<open>i\<close> and the terminal step
  \<open>k = M + 1\<close>, minus the baseline-compensator derivative.
\<close>

definition spec_grad_mu :: "model \<Rightarrow> real list \<Rightarrow> nat \<Rightarrow> real" where
  "spec_grad_mu m coeffs i =
     (\<Sum>k\<leftarrow>events_of m i @ [n_total_jumps m + 1]. 1 / intensity m coeffs i k)
     - (\<Sum>k\<leftarrow>[1..<n_total_jumps m + 2].
          (t_at m k - global_timestamps m ! (k - 1)) * f_of m i coeffs ! (global_n m ! (k - 1)))"

text \<open>The position of \<open>f_i[n]\<close> in the coefficient and gradient vectors, as
  \<^verbatim>\<open>loss_dim_i\<close> and \<^verbatim>\<open>grad_dim_i\<close> compute it.\<close>

definition f_index :: "model \<Rightarrow> nat \<Rightarrow> nat \<Rightarrow> nat" where
  "f_index m i n =
     n_nodes m + n_nodes m * n_nodes m * length (decays m) + i * MaxN_of_f m + n"

text \<open>Every state of the state sequence has an entry in the link-function table.\<close>

definition states_ok :: "model \<Rightarrow> bool" where
  "states_ok m \<longleftrightarrow> list_all (\<lambda>k. global_n m ! k < MaxN_of_f m) [0..<n_total_jumps m + 1]"

text \<open>
  The terms A, C and D of the loss in the words of the specification, over the coefficient
  vector itself: \<open>f_i[n]\<close> is the entry of \<open>coeffs\<close> at position \<open>f_index m i n\<close>. A sums
  \<open>log (f_i[n[k-1]])\<close> over the events of dimension \<open>i\<close>; C is the baseline compensator over
  all intervals including the terminal one to \<open>T\<close>; D is the interaction compensator.
  Term B is \<open>term_B\<close> above.
\<close>

definition term_A :: "model \<Rightarrow> real list \<Rightarrow> nat \<Rightarrow> real" where
  "term_A m coeffs i =
     (\<Sum>k\<leftarrow>events_of m i. ln (coeffs ! f_index m i (global_n m ! (k - 1))))"

definition term_C :: "model \<Rightarrow> real list \<Rightarrow> nat \<Rightarrow> real" where
  "term_C m coeffs i =
     - (\<Sum>k\<leftarrow>[1..<n_total_jumps m + 2].
          coeffs ! i * (t_at m k - global_timestamps m ! (k - 1))
          * coeffs ! f_index m i (global_n m ! (k - 1)))"

definition term_D :: "model \<Rightarrow> real list \<Rightarrow> nat \<Rightarrow> real" where
  "term_D m coeffs i =
     - (\<Sum>j\<leftarrow>[0..<n_nodes m]. \<Sum>u\<leftarrow>[0..<length (decays m)].
          coeffs ! get_alpha_u_i_j_index m u i j
          * (\<Sum>k\<leftarrow>[1..<n_total_jumps m + 2].
               (G m ! i) ! get_index m k j u * coeffs ! f_index m i (global_n m ! (k - 1))))"

text \<open>
  The sufficient statistics in closed form: \<open>H1_i[n]\<close> counts the events of dimension \<open>i\<close>
  that occur in state \<open>n\<close> (the state \<open>n[k-1]\<close> of the interval that the event ends), less 1
  at the state of the final event; \<open>H2[n]\<close> is minus the time spent in state \<open>n\<close>, over all
  intervals including the terminal one; \<open>H3_i[n, u]\<close> is minus the sum of \<open>G_i(k, i, u)\<close>
  over the intervals spent in state \<open>n\<close>.
\<close>

definition H1_closed :: "model \<Rightarrow> nat \<Rightarrow> nat \<Rightarrow> real" where
  "H1_closed m i n =
     real (length (filter (\<lambda>k. global_n m ! (k - 1) = n) (events_of m i)))
     - (if global_n m ! n_total_jumps m = n then 1 else 0)"

definition H2_closed :: "model \<Rightarrow> nat \<Rightarrow> real" where
  "H2_closed m n =
     - (\<Sum>k\<leftarrow>filter (\<lambda>k. global_n m ! (k - 1) = n) [1..<n_total_jumps m + 2].
          t_at m k - global_timestamps m ! (k - 1))"

definition H3_closed :: "model \<Rightarrow> nat \<Rightarrow> nat \<Rightarrow> nat \<Rightarrow> real" where
  "H3_closed m i n u =
     - (\<Sum>k\<leftarrow>filter (\<lambda>k. global_n m ! (k - 1) = n) [1..<n_total_jumps m + 2].
          (G m ! i) ! get_index m k i u)"

text \<open>The two accumulations that the loop of \<open>H12_step\<close> interleaves, each on its own.\<close>

definition H1_loop :: "model \<Rightarrow> nat \<Rightarrow> nat list \<Rightarrow> real list \<Rightarrow> real list" where
  "H1_loop m i ks H1_i =
     fold (\<lambda>k H. H[global_n m ! (k - 1) :=
                    H ! (global_n m ! (k - 1)) + (if type_n m ! k = i + 1 then 1 else 0)])
       ks H1_i"

definition H2_loop :: "model \<Rightarrow> nat list \<Rightarrow> real list \<Rightarrow> real list" where
  "H2_loop m ks H2_i =
     fold (\<lambda>k H. H[global_n m ! (k - 1) :=
                    H ! (global_n m ! (k - 1)) - (t_at m k - global_timestamps m ! (k - 1))])
       ks H2_i"

text \<open>Two states of the object that differ at most in the weight buffers.\<close>

definition same_data :: "model \<Rightarrow> model \<Rightarrow> bool" where
  "same_data m m' \<longleftrightarrow> (\<exists>a b c d e. m' = m\<lparr>g := a, G := b, H1 := c, H2 := d, H3 := e\<rparr>)"

text \<open>
  The vocabulary of the recursive kernel sums. \<open>add_at\<close> is the compound assignment
  \<^verbatim>\<open>a[n] += c\<close>. \<open>g_contrib\<close> and \<open>G_contrib\<close> are what the events of source dimension
  \<open>j\<close> among the merged indices \<open>es\<close> contribute to \<open>g\<close> and \<open>G\<close> at a step with time
  \<open>t_k\<close>: \<open>decay exp (- decay (t_k - lag - t_e))\<close> and \<open>1 - exp (- decay (t_k - lag - t_e))\<close>
  each.
\<close>

definition add_at :: "real list \<Rightarrow> nat \<Rightarrow> real \<Rightarrow> real list" where
  "add_at xs n c = xs[n := xs ! n + c]"

definition g_contrib :: "model \<Rightarrow> nat \<Rightarrow> real \<Rightarrow> real \<Rightarrow> real \<Rightarrow> nat list \<Rightarrow> real" where
  "g_contrib m j decay lag t_k es =
     (\<Sum>e\<leftarrow>filter (\<lambda>e. type_n m ! e = j + 1) es.
        decay * exp (- decay * (t_k - lag - global_timestamps m ! e)))"

definition G_contrib :: "model \<Rightarrow> nat \<Rightarrow> real \<Rightarrow> real \<Rightarrow> real \<Rightarrow> nat list \<Rightarrow> real" where
  "G_contrib m j decay lag t_k es =
     (\<Sum>e\<leftarrow>filter (\<lambda>e. type_n m ! e = j + 1) es.
        1 - exp (- decay * (t_k - lag - global_timestamps m ! e)))"

text \<open>
  The direct pairwise sum for one kernel with its lag: over all events of dimension \<open>j\<close>
  whose time lies strictly before \<open>t_k - lag\<close>. \<open>brute_force_g\<close> is its form for lag 0 in
  the words of the specification: the exponential-decay sum over all strictly earlier events
  of the same source. \<open>g_direct_inclusive\<close> is the sum with the gate \<open>t_e \<le> t_k - lag\<close>.
\<close>

definition g_direct :: "model \<Rightarrow> nat \<Rightarrow> real \<Rightarrow> real \<Rightarrow> nat \<Rightarrow> real" where
  "g_direct m j decay lag k =
     (\<Sum>e\<leftarrow>filter (\<lambda>e. type_n m ! e = j + 1
                     \<and> global_timestamps m ! e < global_timestamps m ! k - lag)
           [1..<n_total_jumps m + 1].
        decay * exp (- decay * (global_timestamps m ! k - lag - global_timestamps m ! e)))"

definition brute_force_g :: "model \<Rightarrow> nat \<Rightarrow> real \<Rightarrow> nat \<Rightarrow> real" where
  "brute_force_g m j decay k =
     (\<Sum>e\<leftarrow>filter (\<lambda>e. type_n m ! e = j + 1 \<and> global_timestamps m ! e < global_timestamps m ! k)
           [1..<n_total_jumps m + 1].
        decay * exp (- decay * (global_timestamps m ! k - global_timestamps m ! e)))"

definition g_direct_inclusive :: "model \<Rightarrow> nat \<Rightarrow> real \<Rightarrow> real \<Rightarrow> nat \<Rightarrow> real" where
  "g_direct_inclusive m j decay lag k =
     (\<Sum>e\<leftarrow>filter (\<lambda>e. type_n m ! e = j + 1
                     \<and> global_timestamps m ! e \<le> global_timestamps m ! k - lag)
           [1..<n_total_jumps m + 1].
        decay * exp (- decay * (global_timestamps m ! k - lag - global_timestamps m ! e)))"

text \<open>
  The invariants of a bound dataset that the kernel evaluator relies on: the merged timeline
  and the type array have \<open>M + 1\<close> entries, the timeline is sorted, and there is at least one
  event; every kernel has a lag, and no lag is negative.
\<close>

definition timeline_ok :: "model \<Rightarrow> bool" where
  "timeline_ok m \<longleftrightarrow>
     length (global_timestamps m) = n_total_jumps m + 1
     \<and> length (type_n m) = n_total_jumps m + 1
     \<and> sorted (global_timestamps m)
     \<and> 1 \<le> n_total_jumps m"

definition kernels_ok :: "model \<Rightarrow> bool" where
  "kernels_ok m \<longleftrightarrow> length (lags m) = length (decays m) \<and> list_all (\<lambda>lag. 0 \<le> lag) (lags m)"

text \<open>What holds of the buffer \<open>g\<close> once the passes for the source dimensions and kernels
  in \<open>filled\<close> have run: it has its allocated size, row 0 is zero, and the rows \<open>1..M\<close> of
  the filled columns hold the direct sums.\<close>

definition g_ok :: "model \<Rightarrow> (nat \<times> nat) set \<Rightarrow> real list \<Rightarrow> bool" where
  "g_ok m filled ga \<longleftrightarrow>
     length ga = (n_total_jumps m + 2) * (n_nodes m * length (decays m))
     \<and> (\<forall>j u. j < n_nodes m \<and> u < length (decays m) \<longrightarrow> ga ! get_index m 0 j u = 0)
     \<and> (\<forall>j u k. (j, u) \<in> filled \<and> j < n_nodes m \<and> u < length (decays m)
                 \<and> 1 \<le> k \<and> k \<le> n_total_jumps m
           \<longrightarrow> ga ! get_index m k j u = g_direct m j (decays m ! u) (lags m ! u) k)"

text \<open>Three more datasets: one with no event at all; one with two events of the single
  modelled dimension at times 1 and 2 and a kernel of lag 1; and the end-to-end scenario of
  the specification (dimension 0 at times 1 and 3, dimension 1 at time 2, empty auxiliary
  stream, horizon 4, one kernel with decay 1 and lag 0).\<close>

definition ex_empty :: model where
  "ex_empty = set_data [[], []] [0] 2 ex_object"

definition ex_lag :: model where
  "ex_lag = set_data [[1, 2], []] [0, 0, 0] 3 (new_model [1] [1] 1 (\<lambda>u i j. 1 + i + j + u))"

definition ex_spec :: model where
  "ex_spec = set_data [[1, 3], [2], []] [0, 0, 0, 0] 4
               (new_model [1] [0] 1 (\<lambda>u i j. 2 + 2 * i + j + u))"

text \<open>A dataset with two link states: one modelled dimension with events at times 1 and
  2, an empty auxiliary stream, horizon 3, one kernel with decay 1 and lag 0, and the state
  sequence \<open>0, 1, 0\<close>; the coefficient vector is laid out as
  \<open>[mu_0, alpha_0_0_0, f_0[0], f_0[1]]\<close>. \<open>ex_states_weights\<close> holds its weights, as
  \<open>compute_weights\<close> leaves them.\<close>

definition ex_states :: model where
  "ex_states = set_data [[1, 2], []] [0, 1, 0] 3 (new_model [1] [0] 2 (\<lambda>u i j. 1 + i + j + u))"

definition ex_states_weights :: model where
  "ex_states_weights =
     ex_states\<lparr>weights_computed := True, Total_events := 2,
               g := [[0, 0, exp (- 1), exp (- 1) * exp (- 1) + exp (- 1)]],
               G := [[0, 0, 1 - exp (- 1), (1 - exp (- 1)) * exp (- 1) + (1 - exp (- 1))]],
               sum_G := [[0]],
               H1 := [[0, 1]], H2 := [[- 2, - 1]],
               H3 := [[exp (- 1) - 1 - (1 - exp (- 1)) * exp (- 1), exp (- 1) - 1]]\<rparr>"

text \<open>How the scratch buffers \<open>sum_G\<close> of two states of the object can differ after calls
  of \<^verbatim>\<open>loss\<close>: some rows have been reset by \<open>init_to_zero\<close>.\<close>

definition zeroed :: "real list list \<Rightarrow> real list list \<Rightarrow> bool" where
  "zeroed sg sg' \<longleftrightarrow>
     length sg' = length sg \<and> (\<forall>i<length sg. sg' ! i = sg ! i \<or> sg' ! i = init_to_zero (sg ! i))"

section \<open>Facts about binding and allocation\<close>

text \<open>Index ranges stay folded: a range is split at its last element only on demand.\<close>

declare upt_Suc [simp del]

text \<open>The equation of \<open>scan\<close> is unfolded one iteration at a time.\<close>

declare scan.simps [simp del]

lemma allocate_step_frame:
  "n_nodes (allocate_step i m) = n_nodes m"
  "n_total_jumps (allocate_step i m) = n_total_jumps m"
  "n_jumps_per_node (allocate_step i m) = n_jumps_per_node m"
  "Total_events (allocate_step i m) = Total_events m"
  "decays (allocate_step i m) = decays m"
  "lags (allocate_step i m) = lags m"
  "MaxN_of_f (allocate_step i m) = MaxN_of_f m"
  "global_timestamps (allocate_step i m) = global_timestamps m"
  "type_n (allocate_step i m) = type_n m"
  "global_n (allocate_step i m) = global_n m"
  "end_time (allocate_step i m) = end_time m"
  "weights_computed (allocate_step i m) = weights_computed m"
  "get_alpha_u_i_j_index (allocate_step i m) = get_alpha_u_i_j_index m"
  "timestamps (allocate_step i m) = timestamps m"
  by (simp_all add: allocate_step_def Let_def)

lemma fold_allocate_step_frame:
  "n_nodes (fold allocate_step is m) = n_nodes m"
  "n_total_jumps (fold allocate_step is m) = n_total_jumps m"
  "n_jumps_per_node (fold allocate_step is m) = n_jumps_per_node m"
  "Total_events (fold allocate_step is m) = Total_events m"
  "decays (fold allocate_step is m) = decays m"
  "lags (fold allocate_step is m) = lags m"
  "MaxN_of_f (fold allocate_step is m) = MaxN_of_f m"
  "global_timestamps (fold allocate_step is m) = global_timestamps m"
  "type_n (fold allocate_step is m) = type_n m"
  "global_n (fold allocate_step is m) = global_n m"
  "end_time (fold allocate_step is m) = end_time m"
  "weights_computed (fold allocate_step is m) = weights_computed m"
  "get_alpha_u_i_j_index (fold allocate_step is m) = get_alpha_u_i_j_index m"
  "timestamps (fold allocate_step is m) = timestamps m"
  by (induction "is" arbitrary: m; simp add: allocate_step_frame)+

lemma set_data_counts:
  "n_total_jumps (set_data tss gn T m0) = sum_list (map length tss)"
  "n_jumps_per_node (set_data tss gn T m0) = map length tss"
  "n_nodes (set_data tss gn T m0) = (length tss + 2 ^ 64 - 1) mod 2 ^ 64"
  by (simp_all add: set_data_def base_set_data_def Let_def)




section \<open>The normalizer\<close>



section \<open>The small dataset, evaluated\<close>

text \<open>Unfolds a range between two concrete bounds.\<close>

lemmas upt_small = upt_conv_Cons

lemma ex_bound_fields:
  "ex_bound = ex_object\<lparr>n_nodes := 1, n_total_jumps := 1, n_jumps_per_node := [1, 0],
      timestamps := [[1], []], end_time := 2, weights_computed := False,
      global_n := [0, 0], global_timestamps := [0, 1], type_n := [0, 1]\<rparr>"
  by (simp add: ex_bound_def ex_object_def set_data_def base_set_data_def new_model_def
      sort_index_def Let_def upt_small)

lemma ex_compute_weights: "compute_weights ex_bound = Inr ex_weights"
  by (simp add: ex_weights_def ex_bound_fields ex_object_def new_model_def Let_def
      compute_weights_def allocate_weights_def allocate_step_def compute_weights_dim_i_def
      weights_gG_def weights_pass_def weights_step_def get_index_def get_n_decays_def
      H12_step_def H3_step_def upt_small scan.simps)

lemma ex_ensure_weights: "ensure_weights ex_bound = Inr ex_weights"
  by (simp add: ensure_weights_def ex_compute_weights) (simp add: ex_bound_fields)

lemma ex_weights_fields:
  "n_nodes ex_weights = 1" "n_total_jumps ex_weights = 1" "decays ex_weights = [1]"
  "type_n ex_weights = [0, 1]" "g ex_weights = [[0, 0, exp (- 1)]]"
  "get_alpha_u_i_j_index ex_weights = (\<lambda>u i j. 1 + i + j + u)"
  "global_timestamps ex_weights = [0, 1]" "global_n ex_weights = [0, 0]"
  "end_time ex_weights = 2" "MaxN_of_f ex_weights = 1" "Total_events ex_weights = 1"
  "G ex_weights = [[0, 0, 1 - exp (- 1)]]" "lags ex_weights = [0]"
  "H1 ex_weights = [[0]]" "H2 ex_weights = [[- 2]]" "H3 ex_weights = [[exp (- 1) - 1]]"
  "weights_computed ex_weights = True" "sum_G ex_weights = [[0]]"
  by (simp_all add: ex_weights_def ex_bound_fields ex_object_def new_model_def)

lemma ex_events: "events_of ex_weights 0 = [1]"
  by (simp add: events_of_def ex_weights_fields upt_small)

lemma ex_intensity: "intensity ex_weights [mu, a, f] 0 (Suc 0) = mu"
  by (simp add: intensity_def ex_weights_fields get_index_def get_n_decays_def upt_small)

lemma ex_admissible: "admissible ex_weights [mu, a, f] \<longleftrightarrow> 0 < mu"
  by (simp add: admissible_def admissible_dim_def ex_events ex_intensity ex_weights_fields
      upt_small)

section \<open>The loss\<close>
lemma fold_add_sum_list:
  fixes h :: "'a \<Rightarrow> real"
  shows "fold (\<lambda>k s. s + h k) xs s0 = s0 + (\<Sum>k\<leftarrow>xs. h k)"
  by (induction xs arbitrary: s0) (simp_all add: algebra_simps)

lemma fold_sub_sum_list:
  fixes h :: "'a \<Rightarrow> real"
  shows "fold (\<lambda>k s. s - h k) xs s0 = s0 - (\<Sum>k\<leftarrow>xs. h k)"
  by (induction xs arbitrary: s0) (simp_all add: algebra_simps)

lemma fold_cond_add_sum_list:
  fixes h :: "'a \<Rightarrow> real"
  shows "fold (\<lambda>k s. if P k then s + h k else s) xs s0 = s0 + (\<Sum>k\<leftarrow>filter P xs. h k)"
  by (induction xs arbitrary: s0) (simp_all add: algebra_simps)

lemma fold_fold_add_sum_list:
  fixes h :: "'a \<Rightarrow> 'b \<Rightarrow> real"
  shows "fold (\<lambda>j. fold (\<lambda>u s. s + h j u) us) js s0 = s0 + (\<Sum>j\<leftarrow>js. \<Sum>u\<leftarrow>us. h j u)"
  by (induction js arbitrary: s0) (simp_all add: fold_add_sum_list algebra_simps)

lemma fold_fold_sub_sum_list:
  fixes h :: "'a \<Rightarrow> 'b \<Rightarrow> real"
  shows "fold (\<lambda>j. fold (\<lambda>u s. s - h j u) us) js s0 = s0 - (\<Sum>j\<leftarrow>js. \<Sum>u\<leftarrow>us. h j u)"
  by (induction js arbitrary: s0) (simp_all add: fold_sub_sum_list algebra_simps)

lemma intensity_loop_eq: "intensity_loop m i coeffs k = intensity m coeffs i k"
  by (simp add: intensity_loop_def intensity_def fold_fold_add_sum_list)

lemma sum_G_loop_eq:
  "sum_G_loop m i f_i j u =
     (\<Sum>k\<leftarrow>[1..<n_total_jumps m + 2]. (G m ! i) ! get_index m k j u * f_i ! (global_n m ! (k - 1)))"
  by (simp add: sum_G_loop_def fold_add_sum_list)

lemma foldE_term2:
  "foldE (term2_step m i coeffs) xs acc =
     (if list_all (\<lambda>k. 0 < intensity m coeffs i k) (filter (\<lambda>k. type_n m ! k = i + 1) xs)
      then Inr (acc + (\<Sum>k\<leftarrow>filter (\<lambda>k. type_n m ! k = i + 1) xs. ln (intensity m coeffs i k)))
      else Inl DomainError)"
  by (induction xs arbitrary: acc)
     (auto simp add: term2_step_def intensity_loop_eq Let_def not_le algebra_simps)

lemma upt_snoc2: "[1..<n + 2] = [1..<n + 1] @ [n + 1]"
  by (simp add: upt_Suc)

lemma baseline_sum_split:
  "(\<Sum>k\<leftarrow>[1..<n_total_jumps m + 2]. c * (t_at m k - global_timestamps m ! (k - 1)) * h k)
     = (\<Sum>k\<leftarrow>[1..<n_total_jumps m + 1].
          c * (global_timestamps m ! k - global_timestamps m ! (k - 1)) * h k)
       + c * (end_time m - global_timestamps m ! n_total_jumps m) * h (n_total_jumps m + 1)"
proof -
  have b: "(\<Sum>k\<leftarrow>[1..<n_total_jumps m + 1]. c * (t_at m k - global_timestamps m ! (k - 1)) * h k)
      = (\<Sum>k\<leftarrow>[1..<n_total_jumps m + 1].
          c * (global_timestamps m ! k - global_timestamps m ! (k - 1)) * h k)"
    by (rule arg_cong [where f = sum_list], rule map_cong) (auto simp add: t_at_def)
  have c: "t_at m (n_total_jumps m + 1) = end_time m" by (simp add: t_at_def)
  show ?thesis
    unfolding upt_snoc2 [of "n_total_jumps m"] by (simp only: map_append sum_list_append b) (simp add: t_at_def)
qed

lemma loss_dim_i_char:
  "loss_dim_i i coeffs m =
     (if admissible_dim m coeffs i
      then Inr (loss_dim_value m coeffs i,
                m\<lparr>sum_G := (sum_G m)[i := init_to_zero (sum_G m ! i)]\<rparr>)
      else Inl DomainError)"
proof -
  have e: "[1..<1 + n_total_jumps m + 1] = [1..<n_total_jumps m + 2]" by simp
  show ?thesis
    unfolding loss_dim_i_def Let_def foldE_term2 sum_G_loop_eq
      fold_cond_add_sum_list fold_sub_sum_list fold_fold_sub_sum_list
      admissible_dim_def events_of_def loss_dim_value_def loop_A_def term_B_def loop_C_def
      loop_D_def
      baseline_sum_split [where h = "\<lambda>k. f_of m i coeffs ! (global_n m ! (k - 1))"]
    by (simp del: upt_Suc add: events_of_def algebra_simps)
qed


lemma sum_G_frame_parts:
  "get_index (m\<lparr>sum_G := sg\<rparr>) = get_index m"
  "f_of (m\<lparr>sum_G := sg\<rparr>) = f_of m"
  "t_at (m\<lparr>sum_G := sg\<rparr>) = t_at m"
  "events_of (m\<lparr>sum_G := sg\<rparr>) = events_of m"
  by (simp_all add: fun_eq_iff get_index_def get_n_decays_def f_of_def t_at_def events_of_def)

lemma sum_G_frame_intensity:
  "intensity (m\<lparr>sum_G := sg\<rparr>) = intensity m"
  by (simp add: fun_eq_iff intensity_def sum_G_frame_parts)

lemma sum_G_frame:
  "admissible_dim (m\<lparr>sum_G := sg\<rparr>) coeffs i = admissible_dim m coeffs i"
  "loss_dim_value (m\<lparr>sum_G := sg\<rparr>) coeffs i = loss_dim_value m coeffs i"
  by (simp_all add: admissible_dim_def loss_dim_value_def loop_A_def term_B_def loop_C_def
      loop_D_def sum_G_frame_parts sum_G_frame_intensity)

lemma reduce_loss_fst:
  "fst (parallel_map_additive_reduce (\<lambda>i. loss_dim_i i coeffs) ds acc (m\<lparr>sum_G := sg\<rparr>)) =
     (if list_all (admissible_dim m coeffs) ds
      then Inr (acc + (\<Sum>i\<leftarrow>ds. loss_dim_value m coeffs i))
      else Inl DomainError)"
proof (induction ds arbitrary: acc sg)
  case Nil
  then show ?case by simp
next
  case (Cons d ds)
  show ?case
  proof (cases "admissible_dim m coeffs d")
    case True
    then show ?thesis
      using Cons.IH [of "acc + loss_dim_value m coeffs d"]
      by (simp add: loss_dim_i_char sum_G_frame algebra_simps)
  next
    case False
    then show ?thesis by (simp add: loss_dim_i_char sum_G_frame)
  qed
qed

lemma reduce_loss_Total_events:
  "Total_events (snd (parallel_map_additive_reduce (\<lambda>i. loss_dim_i i coeffs) ds acc m))
     = Total_events m"
proof (induction ds arbitrary: acc m)
  case Nil
  then show ?case by simp
next
  case (Cons d ds)
  show ?case
  proof (cases "loss_dim_i d coeffs m")
    case (Inl e)
    then show ?thesis by simp
  next
    case (Inr vm)
    then have "Total_events (snd vm) = Total_events m"
      by (auto simp add: loss_dim_i_char split: if_splits)
    then show ?thesis
      using Inr Cons.IH [of "acc + fst vm" "snd vm"] by (simp add: case_prod_beta)
  qed
qed

lemma loss_fst:
  assumes "ensure_weights m = Inr m1"
  shows "fst (loss coeffs m) =
     (if admissible m1 coeffs
      then Inr ((\<Sum>i\<leftarrow>[0..<n_nodes m1]. loss_dim_value m1 coeffs i) / real (Total_events m1))
      else Inl DomainError)"
proof -
  let ?r = "parallel_map_additive_reduce (\<lambda>i. loss_dim_i i coeffs) [0..<n_nodes m1] 0 m1"
  have f: "fst ?r = (if admissible m1 coeffs
      then Inr (\<Sum>i\<leftarrow>[0..<n_nodes m1]. loss_dim_value m1 coeffs i) else Inl DomainError)"
    using reduce_loss_fst [where coeffs = coeffs and ds = "[0..<n_nodes m1]" and acc = 0
        and m = m1 and sg = "sum_G m1"]
    by (simp add: admissible_def)
  have t: "Total_events (snd ?r) = Total_events m1"
    by (rule reduce_loss_Total_events)
  show ?thesis
    using f t assms unfolding loss_def
    by (auto split: prod.splits sum.splits if_splits)
qed


text \<open>The link values of the local array \<open>f_i\<close> are the entries of the coefficient vector,
  and the two-state dataset, evaluated.\<close>

lemma f_of_nth: "n < MaxN_of_f m \<Longrightarrow> f_of m i coeffs ! n = coeffs ! f_index m i n"
  by (simp add: f_of_def f_index_def)

lemma states_ok_nth:
  assumes "states_ok m" and "k \<in> set [1..<n_total_jumps m + 2]"
  shows "f_of m i coeffs ! (global_n m ! (k - 1)) = coeffs ! f_index m i (global_n m ! (k - 1))"
proof -
  have "k - 1 \<in> set [0..<n_total_jumps m + 1]" using assms(2) by auto
  then have "global_n m ! (k - 1) < MaxN_of_f m"
    using assms(1) unfolding states_ok_def list_all_iff by blast
  then show ?thesis by (rule f_of_nth)
qed

lemma events_of_range: "k \<in> set (events_of m i) \<Longrightarrow> k \<in> set [1..<n_total_jumps m + 2]"
  by (auto simp add: events_of_def)

lemma loop_A_eq:
  assumes "states_ok m"
  shows "loop_A m coeffs i = term_A m coeffs i"
proof -
  have "ln (f_of m i coeffs ! (global_n m ! (k - 1)))
      = ln (coeffs ! f_index m i (global_n m ! (k - 1)))" if "k \<in> set (events_of m i)" for k
    using states_ok_nth [OF assms events_of_range [OF that]] by (rule arg_cong)
  then show ?thesis
    unfolding loop_A_def term_A_def
    by (intro arg_cong [where f = sum_list] map_cong refl)
qed

lemma loop_C_eq:
  assumes "states_ok m"
  shows "loop_C m coeffs i = term_C m coeffs i"
proof -
  have "coeffs ! i * (t_at m k - global_timestamps m ! (k - 1))
          * f_of m i coeffs ! (global_n m ! (k - 1))
      = coeffs ! i * (t_at m k - global_timestamps m ! (k - 1))
          * coeffs ! f_index m i (global_n m ! (k - 1))"
    if "k \<in> set [1..<n_total_jumps m + 2]" for k
    using states_ok_nth [OF assms that] by (rule arg_cong)
  then show ?thesis
    unfolding loop_C_def term_C_def
    by (intro arg_cong [where f = uminus] arg_cong [where f = sum_list] map_cong refl)
qed

lemma loop_D_eq:
  assumes "states_ok m"
  shows "loop_D m coeffs i = term_D m coeffs i"
proof -
  have "(G m ! i) ! get_index m k j u * f_of m i coeffs ! (global_n m ! (k - 1))
      = (G m ! i) ! get_index m k j u * coeffs ! f_index m i (global_n m ! (k - 1))"
    if "k \<in> set [1..<n_total_jumps m + 2]" for k j u
    using states_ok_nth [OF assms that] by (rule arg_cong)
  then have "(\<Sum>k\<leftarrow>[1..<n_total_jumps m + 2].
           (G m ! i) ! get_index m k j u * f_of m i coeffs ! (global_n m ! (k - 1)))
      = (\<Sum>k\<leftarrow>[1..<n_total_jumps m + 2].
           (G m ! i) ! get_index m k j u * coeffs ! f_index m i (global_n m ! (k - 1)))" for j u
    by (intro arg_cong [where f = sum_list] map_cong refl)
  then show ?thesis unfolding loop_D_def term_D_def by (simp only:)
qed

lemma loss_dim_value_eq:
  assumes "states_ok m"
  shows "loss_dim_value m coeffs =
     (\<lambda>i. - end_time m - (term_A m coeffs i + term_B m coeffs i
                           + term_C m coeffs i + term_D m coeffs i))"
  by (rule ext) (simp only: loss_dim_value_def loop_A_eq [OF assms] loop_C_eq [OF assms]
      loop_D_eq [OF assms])

lemma ex_states_fields:
  "ex_states = (new_model [1] [0] 2 (\<lambda>u i j. 1 + i + j + u))
      \<lparr>n_nodes := 1, n_total_jumps := 2, n_jumps_per_node := [2, 0],
       timestamps := [[1, 2], []], end_time := 3, weights_computed := False,
       global_n := [0, 1, 0], global_timestamps := [0, 1, 2], type_n := [0, 1, 1]\<rparr>"
  by (simp add: ex_states_def set_data_def base_set_data_def new_model_def
      sort_index_def Let_def upt_small)

lemma ex_states_compute_weights: "compute_weights ex_states = Inr ex_states_weights"
  by (simp add: ex_states_weights_def ex_states_fields new_model_def Let_def
      compute_weights_def allocate_weights_def allocate_step_def compute_weights_dim_i_def
      weights_gG_def weights_pass_def weights_step_def get_index_def get_n_decays_def
      H12_step_def H3_step_def upt_small scan.simps numeral_2_eq_2)

lemma ex_states_ensure_weights: "ensure_weights ex_states = Inr ex_states_weights"
  by (simp add: ensure_weights_def ex_states_compute_weights) (simp add: ex_states_fields)

lemma ex_states_weights_fields:
  "n_nodes ex_states_weights = 1" "n_total_jumps ex_states_weights = 2"
  "decays ex_states_weights = [1]" "type_n ex_states_weights = [0, 1, 1]"
  "g ex_states_weights = [[0, 0, exp (- 1), exp (- 1) * exp (- 1) + exp (- 1)]]"
  "get_alpha_u_i_j_index ex_states_weights = (\<lambda>u i j. 1 + i + j + u)"
  "global_timestamps ex_states_weights = [0, 1, 2]" "global_n ex_states_weights = [0, 1, 0]"
  "end_time ex_states_weights = 3" "MaxN_of_f ex_states_weights = 2"
  "Total_events ex_states_weights = 2"
  "G ex_states_weights = [[0, 0, 1 - exp (- 1), (1 - exp (- 1)) * exp (- 1) + (1 - exp (- 1))]]"
  "H1 ex_states_weights = [[0, 1]]" "H2 ex_states_weights = [[- 2, - 1]]"
  "H3 ex_states_weights = [[exp (- 1) - 1 - (1 - exp (- 1)) * exp (- 1), exp (- 1) - 1]]"
  by (simp_all add: ex_states_weights_def ex_states_fields new_model_def)

lemma ex_states_events: "events_of ex_states_weights 0 = [1, 2]"
  by (simp add: events_of_def ex_states_weights_fields upt_small)

lemma ex_states_intensity:
  "intensity ex_states_weights [1, 2, 3, 4] 0 (Suc 0) = 1"
  "intensity ex_states_weights [1, 2, 3, 4] 0 2 = 1 + 2 * exp (- 1)"
  by (simp_all add: intensity_def ex_states_weights_fields get_index_def get_n_decays_def
      upt_small)

lemma ex_states_admissible: "admissible ex_states_weights [1, 2, 3, 4]"
proof -
  have "(0 :: real) < 1 + 2 * exp (- 1)" by (simp add: add_pos_pos)
  then show ?thesis
    by (simp add: admissible_def admissible_dim_def ex_states_events ex_states_intensity
        ex_states_weights_fields upt_small)
qed

lemma ex_states_ok: "states_ok ex_states_weights"
  by (simp add: states_ok_def ex_states_weights_fields upt_small)

text \<open>
  Claim C1. For every bound dataset whose weights are computed and whose states all have an
  entry in the link-function table, and every admissible coefficient vector (the
  conditional intensity is positive at every event of every dimension), \<open>loss\<close> returns the
  sum over the dimensions \<open>i\<close> of \<open>- T - (A + B + C + D)\<close>, divided by \<open>Total_events\<close>, where
  A sums \<open>log (f_i[n[k-1]])\<close> and B sums the logarithm of the conditional intensity over the
  events of dimension \<open>i\<close>, C is the baseline compensator over all intervals including the
  terminal one to \<open>T\<close>, and D is the interaction compensator; \<open>f_i[n]\<close> is the entry of the
  coefficient vector at position \<open>D + D\<^sup>2 U + i S + n\<close>.
\<close>

theorem loss_is_sum_of_dimension_terms:
  assumes "ensure_weights m = Inr m1" and "admissible m1 coeffs" and "states_ok m1"
  shows "fst (loss coeffs m) =
     Inr ((\<Sum>i\<leftarrow>[0..<n_nodes m1].
             - end_time m1 - (term_A m1 coeffs i + term_B m1 coeffs i
                              + term_C m1 coeffs i + term_D m1 coeffs i))
          / real (Total_events m1))"
  unfolding loss_fst [OF assms(1)] loss_dim_value_eq [OF assms(3)] using assms(2) by simp

theorem loss_is_sum_of_dimension_terms_witness:
  "ensure_weights ex_states = Inr ex_states_weights
   \<and> admissible ex_states_weights [1, 2, 3, 4]
   \<and> states_ok ex_states_weights
   \<and> term_A ex_states_weights [1, 2, 3, 4] 0 = ln 3 + ln 4
   \<and> term_B ex_states_weights [1, 2, 3, 4] 0 = ln 1 + ln (1 + 2 * exp (- 1))
   \<and> term_C ex_states_weights [1, 2, 3, 4] 0 = - (1 * 1 * 3 + 1 * 1 * 4 + 1 * 1 * 3)
   \<and> term_D ex_states_weights [1, 2, 3, 4] 0
       = - (2 * (0 * 3 + (1 - exp (- 1)) * 4
                 + ((1 - exp (- 1)) * exp (- 1) + (1 - exp (- 1))) * 3))
   \<and> fst (loss [1, 2, 3, 4] ex_states) =
       Inr ((- 3 - (term_A ex_states_weights [1, 2, 3, 4] 0
                    + term_B ex_states_weights [1, 2, 3, 4] 0
                    + term_C ex_states_weights [1, 2, 3, 4] 0
                    + term_D ex_states_weights [1, 2, 3, 4] 0)) / 2)"
  using loss_is_sum_of_dimension_terms [of ex_states ex_states_weights "[1, 2, 3, 4]"]
  apply (simp add: ex_states_ensure_weights ex_states_admissible ex_states_ok)
  apply (simp add: term_A_def term_B_def term_C_def term_D_def ex_states_events
      ex_states_intensity ex_states_weights_fields f_index_def t_at_def get_index_def
      get_n_decays_def upt_small)
  done

text \<open>
  Claim C3. With the weights computed, \<open>loss\<close> raises the non-positive-intensity
  \<open>DomainError\<close> (and returns no value) for every coefficient vector for which some event
  of some dimension \<open>i\<close> has \<open>mu_i + \<Sum>j \<Sum>u alpha_u_i_j g(k, j, u) \<le> 0\<close>; when that sum is
  positive at every event of every dimension, \<open>loss\<close> returns a value without error.
\<close>

theorem loss_domain_error:
  assumes "ensure_weights m = Inr m1"
  shows "((\<exists>i<n_nodes m1. \<exists>k\<in>set (events_of m1 i). intensity m1 coeffs i k \<le> 0)
            \<longrightarrow> fst (loss coeffs m) = Inl DomainError)
       \<and> ((\<forall>i<n_nodes m1. \<forall>k\<in>set (events_of m1 i). 0 < intensity m1 coeffs i k)
            \<longrightarrow> (\<exists>v. fst (loss coeffs m) = Inr v))"
proof -
  have "admissible m1 coeffs \<longleftrightarrow>
      (\<forall>i<n_nodes m1. \<forall>k\<in>set (events_of m1 i). 0 < intensity m1 coeffs i k)"
    by (auto simp add: admissible_def admissible_dim_def list_all_iff)
  moreover have "(\<exists>i<n_nodes m1. \<exists>k\<in>set (events_of m1 i). intensity m1 coeffs i k \<le> 0)
      \<longleftrightarrow> \<not> (\<forall>i<n_nodes m1. \<forall>k\<in>set (events_of m1 i). 0 < intensity m1 coeffs i k)"
    by (auto simp add: not_less)
  ultimately show ?thesis
    unfolding loss_fst [OF assms] by simp
qed


theorem loss_domain_error_witness:
  "ensure_weights ex_bound = Inr ex_weights
   \<and> intensity ex_weights [- 1, 2, 1] 0 1 \<le> 0
   \<and> fst (loss [- 1, 2, 1] ex_bound) = Inl DomainError
   \<and> (\<exists>v. fst (loss [1, 2, 1] ex_bound) = Inr v)"
  using loss_domain_error [of ex_bound ex_weights "[- 1, 2, 1]"]
    loss_domain_error [of ex_bound ex_weights "[1, 2, 1]"]
  by (simp add: ex_ensure_weights ex_events ex_intensity ex_weights_fields)

section \<open>Repeated calls\<close>

lemma init_to_zero_idem: "init_to_zero (init_to_zero xs) = init_to_zero xs"
  by (simp add: init_to_zero_def)

lemma zeroed_refl: "zeroed sg sg"
  by (simp add: zeroed_def)

lemma zeroed_update: "zeroed sg (sg[d := init_to_zero (sg ! d)])"
proof -
  have "sg[d := init_to_zero (sg ! d)] ! i = sg ! i
      \<or> sg[d := init_to_zero (sg ! d)] ! i = init_to_zero (sg ! i)" if "i < length sg" for i
    using that by (cases "i = d") simp_all
  then show ?thesis by (simp add: zeroed_def)
qed

lemma zeroed_trans: "zeroed a b \<Longrightarrow> zeroed b c \<Longrightarrow> zeroed a c"
  unfolding zeroed_def by (metis init_to_zero_idem)

lemma zeroed_after_update:
  assumes "zeroed (sg[d := init_to_zero (sg ! d)]) sg'"
  shows "sg'[d := init_to_zero (sg' ! d)] = sg'"
proof (cases "d < length sg")
  case True
  then have "sg' ! d = init_to_zero (sg ! d)"
    using assms by (auto simp add: zeroed_def init_to_zero_idem)
  then have "init_to_zero (sg' ! d) = sg' ! d" by (simp add: init_to_zero_idem)
  then show ?thesis by simp
next
  case False
  then have "length sg' \<le> d" using assms by (simp add: zeroed_def)
  then show ?thesis by (rule list_update_beyond)
qed

lemma reduce_loss_state:
  "\<exists>sg'. snd (parallel_map_additive_reduce (\<lambda>i. loss_dim_i i coeffs) ds acc m) = m\<lparr>sum_G := sg'\<rparr>
         \<and> zeroed (sum_G m) sg'"
proof (induction ds arbitrary: acc m)
  case Nil
  have "m = m\<lparr>sum_G := sum_G m\<rparr>" by simp
  then show ?case using zeroed_refl by (metis parallel_map_additive_reduce.simps(1) snd_conv)
next
  case (Cons d ds)
  show ?case
  proof (cases "admissible_dim m coeffs d")
    case False
    have "loss_dim_i d coeffs m = Inl DomainError"
      using False by (simp add: loss_dim_i_char)
    then have "snd (parallel_map_additive_reduce (\<lambda>i. loss_dim_i i coeffs) (d # ds) acc m)
        = m\<lparr>sum_G := sum_G m\<rparr>" by simp
    then show ?thesis using zeroed_refl [of "sum_G m"] by blast
  next
    case True
    let ?md = "m\<lparr>sum_G := (sum_G m)[d := init_to_zero (sum_G m ! d)]\<rparr>"
    obtain sg' where sg': "snd (parallel_map_additive_reduce (\<lambda>i. loss_dim_i i coeffs) ds
          (acc + loss_dim_value m coeffs d) ?md) = ?md\<lparr>sum_G := sg'\<rparr>"
        "zeroed (sum_G ?md) sg'"
      using Cons.IH by blast
    have "zeroed (sum_G m) sg'"
      using zeroed_trans [OF zeroed_update [of "sum_G m" d]] sg'(2) by simp
    moreover have "loss_dim_i d coeffs m = Inr (loss_dim_value m coeffs d, ?md)"
      using True by (simp add: loss_dim_i_char)
    then have "snd (parallel_map_additive_reduce (\<lambda>i. loss_dim_i i coeffs) (d # ds) acc m)
        = m\<lparr>sum_G := sg'\<rparr>" using sg'(1) by simp
    ultimately show ?thesis by blast
  qed
qed

lemma reduce_loss_idem:
  assumes "parallel_map_additive_reduce (\<lambda>i. loss_dim_i i coeffs) ds acc m = (r, m')"
  shows "parallel_map_additive_reduce (\<lambda>i. loss_dim_i i coeffs) ds acc m' = (r, m')"
  using assms
proof (induction ds arbitrary: acc m)
  case Nil
  then show ?case by simp
next
  case (Cons d ds)
  show ?case
  proof (cases "admissible_dim m coeffs d")
    case False
    have "loss_dim_i d coeffs m = Inl DomainError"
      using False by (simp add: loss_dim_i_char)
    then show ?thesis using Cons.prems by auto
  next
    case True
    let ?md = "m\<lparr>sum_G := (sum_G m)[d := init_to_zero (sum_G m ! d)]\<rparr>"
    let ?v = "loss_dim_value m coeffs d"
    have one: "loss_dim_i d coeffs m = Inr (?v, ?md)"
      using True by (simp add: loss_dim_i_char)
    have run: "parallel_map_additive_reduce (\<lambda>i. loss_dim_i i coeffs) ds (acc + ?v) ?md = (r, m')"
      using Cons.prems one by simp
    obtain sg' where sg': "m' = ?md\<lparr>sum_G := sg'\<rparr>" "zeroed (sum_G ?md) sg'"
      using reduce_loss_state [of coeffs ds "acc + ?v" ?md] run by auto
    have m'eq: "m' = m\<lparr>sum_G := sg'\<rparr>" using sg'(1) by simp
    have fixd: "sg'[d := init_to_zero (sg' ! d)] = sg'"
      using zeroed_after_update [of "sum_G m" d sg'] sg'(2) by simp
    have step: "loss_dim_i d coeffs m' = Inr (?v, m')"
      using True unfolding m'eq by (simp add: loss_dim_i_char sum_G_frame fixd)
    show ?thesis
      using Cons.IH [OF run] step by simp
  qed
qed

lemma compute_weights_flag: "compute_weights m = Inr m1 \<Longrightarrow> weights_computed m1"
  by (auto simp add: compute_weights_def split: sum.splits)

lemma ensure_weights_flag: "ensure_weights m = Inr m1 \<Longrightarrow> weights_computed m1"
  by (auto simp add: ensure_weights_def compute_weights_flag split: if_splits)

lemma ensure_weights_again: "weights_computed m \<Longrightarrow> ensure_weights m = Inr m"
  by (simp add: ensure_weights_def)

lemma loss_idem: "loss coeffs (snd (loss coeffs m)) = loss coeffs m"
proof (cases "ensure_weights m")
  case (Inl e)
  then show ?thesis by (simp add: loss_def)
next
  case (Inr m1)
  obtain r m2 where run:
    "parallel_map_additive_reduce (\<lambda>i. loss_dim_i i coeffs) [0..<n_nodes m1] 0 m1 = (r, m2)"
    by (cases "parallel_map_additive_reduce (\<lambda>i. loss_dim_i i coeffs) [0..<n_nodes m1] 0 m1")
  obtain sg' where sg': "m2 = m1\<lparr>sum_G := sg'\<rparr>"
    using reduce_loss_state [of coeffs "[0..<n_nodes m1]" 0 m1] run by auto
  have flag: "weights_computed m2" using ensure_weights_flag [OF Inr] sg' by simp
  have nn: "n_nodes m2 = n_nodes m1" using sg' by simp
  have again: "parallel_map_additive_reduce (\<lambda>i. loss_dim_i i coeffs) [0..<n_nodes m2] 0 m2 = (r, m2)"
    using reduce_loss_idem [OF run] nn by simp
  have first: "loss coeffs m = (case r of Inl e \<Rightarrow> (Inl e, m2)
      | Inr loss_sum \<Rightarrow> (Inr (loss_sum / real (Total_events m2)), m2))"
    using Inr run by (simp add: loss_def split: sum.splits)
  have snd1: "snd (loss coeffs m) = m2" unfolding first by (cases r) simp_all
  have second: "loss coeffs m2 = (case r of Inl e \<Rightarrow> (Inl e, m2)
      | Inr loss_sum \<Rightarrow> (Inr (loss_sum / real (Total_events m2)), m2))"
    using ensure_weights_again [OF flag] again by (simp add: loss_def split: sum.splits)
  have "loss coeffs (snd (loss coeffs m)) = loss coeffs m2" by (simp only: snd1)
  also have "\<dots> = loss coeffs m" by (simp only: first second)
  finally show ?thesis .
qed

lemma grad_idem:
  assumes "length out' = length out"
  shows "grad coeffs out' (snd (grad coeffs out m)) = grad coeffs out m"
proof (cases "ensure_weights m")
  case (Inl e)
  then show ?thesis by (simp add: grad_def)
next
  case (Inr m1)
  have z: "map (\<lambda>_. 0 :: real) out' = map (\<lambda>_. 0) out"
    using assms by (simp add: map_replicate_const)
  have s: "snd (grad coeffs out m) = m1" using Inr by (simp add: grad_def Let_def)
  have e: "ensure_weights m1 = Inr m1"
    using ensure_weights_again [OF ensure_weights_flag [OF Inr]] .
  show ?thesis unfolding s using Inr e z by (simp add: grad_def Let_def grad_pass_def)
qed

text \<open>
  Claim C9. Two successive calls of \<open>loss\<close> with the same coefficients and no re-binding
  of data return the same result, and so do two successive calls of \<open>grad\<close> (whose output
  buffer is zero-filled at entry, whatever it held): the first call computes the weights
  if they are missing and marks them computed, each call resets rows of the scratch buffer
  \<open>sum_G\<close> and nothing else, and no result reads \<open>sum_G\<close>. The second call also leaves the
  object as the first call left it. Doubles are read as reals and the dimensions are
  evaluated in index order.
\<close>

theorem repeated_calls_agree:
  assumes "length out' = length out"
  shows "loss coeffs (snd (loss coeffs m)) = loss coeffs m
   \<and> grad coeffs out' (snd (grad coeffs out m)) = grad coeffs out m"
  using assms loss_idem grad_idem by blast

theorem repeated_calls_agree_witness:
  "length [5, 5, 5 :: real] = length [0, 0, 0 :: real]
   \<and> loss [1, 2, 1] (snd (loss [1, 2, 1] ex_bound)) = loss [1, 2, 1] ex_bound
   \<and> grad [1, 2, 1] [5, 5, 5] (snd (grad [1, 2, 1] [0, 0, 0] ex_bound))
       = grad [1, 2, 1] [0, 0, 0] ex_bound"
  using repeated_calls_agree [of "[5, 5, 5]" "[0, 0, 0]" "[1, 2, 1]" ex_bound] by simp

section \<open>The gradient\<close>

lemma fold_frame:
  assumes "\<And>x s. x \<in> set xs \<Longrightarrow> f x s ! p = s ! p"
  shows "fold f xs s ! p = s ! p"
  using assms by (induction xs arbitrary: s) simp_all

lemma fold_length:
  assumes "\<And>x s. length (f x s) = length s"
  shows "length (fold f xs s) = length s"
  using assms by (induction xs arbitrary: s) simp_all

lemma fold_block_write:
  assumes "b + n < length out"
  shows "fold (\<lambda>k out. out[b + k := h k]) ks out ! (b + n)
           = (if n \<in> set ks then h n else out ! (b + n))"
  using assms
proof (induction ks arbitrary: out)
  case Nil
  then show ?case by simp
next
  case (Cons x ks)
  have "b + n < length (out[b + x := h x])" using Cons.prems by simp
  from Cons.IH [OF this] show ?case
    using Cons.prems by (auto simp add: nth_list_update)
qed

lemma fold_acc_sub:
  fixes h :: "'a \<Rightarrow> real"
  assumes "i < length out"
  shows "fold (\<lambda>k out. out[i := out ! i - h k]) ks out ! i = out ! i - (\<Sum>k\<leftarrow>ks. h k)"
  using assms by (induction ks arbitrary: out) (simp_all add: algebra_simps)

lemma fold_acc_cond_add:
  fixes h :: "'a \<Rightarrow> real"
  assumes "i < length out"
  shows "fold (\<lambda>k out. if P k then out[i := out ! i + h k] else out) ks out ! i
           = out ! i + (\<Sum>k\<leftarrow>filter P ks. h k)"
  using assms by (induction ks arbitrary: out) (simp_all add: algebra_simps)

lemma length_fold_fold_update:
  "length (fold (\<lambda>j. fold (\<lambda>u out. out[idx j u := h j u out]) us) js out) = length out"
  by (rule fold_length, rule fold_length) simp

lemma grad_dim_i_length: "length (grad_dim_i i coeffs m out) = length out"
  unfolding grad_dim_i_def Let_def
  apply (rule trans [OF fold_length], simp)
  apply (rule trans [OF length_fold_fold_update])
  apply (rule trans [OF fold_length], simp add: length_fold_fold_update)
  apply (rule trans [OF fold_length], simp)
  apply (rule trans [OF fold_length], simp)
  apply simp
  done

lemma f_index_bound:
  assumes "i < n_nodes m" and "n < MaxN_of_f m"
  shows "f_index m i n < get_n_coeffs m"
proof -
  have "i * MaxN_of_f m + n < (i + 1) * MaxN_of_f m" using assms by simp
  also have "\<dots> \<le> n_nodes m * MaxN_of_f m"
    using assms by (intro mult_le_mono1) simp
  finally show ?thesis by (simp add: f_index_def get_n_coeffs_def)
qed

lemma grad_dim_i_f_entry:
  assumes "i < n_nodes m" and "n < MaxN_of_f m" and "get_n_coeffs m \<le> length out"
  shows "grad_dim_i i coeffs m out ! f_index m i n =
     (H1 m ! i) ! n / f_of m i coeffs ! n + coeffs ! i * (H2 m ! i) ! n
     + (\<Sum>j\<leftarrow>[0..<n_nodes m]. \<Sum>u\<leftarrow>[0..<length (decays m)].
          coeffs ! get_alpha_u_i_j_index m u i j * (H3 m ! j) ! (n * length (decays m) + u))"
proof -
  let ?b = "n_nodes m + n_nodes m * n_nodes m * length (decays m) + i * MaxN_of_f m"
  have idx: "f_index m i n = ?b + n" by (simp add: f_index_def)
  have len: "?b + n < length out"
    using f_index_bound [OF assms(1,2)] assms(3) by (simp add: f_index_def)
  have in_set: "n \<in> set [0..<MaxN_of_f m]" using assms(2) by simp
  show ?thesis
    unfolding idx grad_dim_i_def Let_def
    apply (subst fold_block_write)
     apply (simp only: length_fold_fold_update)
     apply (rule ord_less_eq_trans [OF len])
     apply (rule sym)
     apply (rule trans [OF fold_length], simp add: length_fold_fold_update)
     apply (rule trans [OF fold_length], simp)
     apply (rule trans [OF fold_length], simp)
     apply simp
    apply (simp only: in_set if_True)
    apply (simp add: assms(2) fold_fold_add_sum_list del: upt_Suc)
    done
qed


lemma fold_cell_add:
  fixes h :: "'a \<Rightarrow> real"
  assumes "p < length H"
  shows "fold (\<lambda>k H. H[idx k := H ! idx k + h k]) ks H ! p
           = H ! p + (\<Sum>k\<leftarrow>filter (\<lambda>k. idx k = p) ks. h k)"
  using assms
proof (induction ks arbitrary: H)
  case Nil
  then show ?case by simp
next
  case (Cons x ks)
  have "p < length (H[idx x := H ! idx x + h x])" using Cons.prems by simp
  note IH = Cons.IH [OF this]
  show ?case
  proof (cases "idx x = p")
    case True
    then show ?thesis using IH Cons.prems by simp
  next
    case False
    then show ?thesis using IH Cons.prems by simp
  qed
qed

lemma fold_cell_sub:
  fixes h :: "'a \<Rightarrow> real"
  assumes "p < length H"
  shows "fold (\<lambda>k H. H[idx k := H ! idx k - h k]) ks H ! p
           = H ! p - (\<Sum>k\<leftarrow>filter (\<lambda>k. idx k = p) ks. h k)"
  using assms
proof (induction ks arbitrary: H)
  case Nil
  then show ?case by simp
next
  case (Cons x ks)
  have "p < length (H[idx x := H ! idx x - h x])" using Cons.prems by simp
  note IH = Cons.IH [OF this]
  show ?case
  proof (cases "idx x = p")
    case True
    then show ?thesis using IH Cons.prems by simp
  next
    case False
    then show ?thesis using IH Cons.prems by simp
  qed
qed

lemma sum_list_indicator:
  "(\<Sum>k\<leftarrow>ks. if Q k then 1 else 0) = real (length (filter Q ks))"
  by (induction ks) simp_all

lemma fold_H12_step:
  assumes "\<forall>k\<in>set ks. k \<le> n_total_jumps m + 1"
  shows "fold (H12_step m i) ks (A, B)
     = (H1_loop m i (filter (\<lambda>k. k \<noteq> n_total_jumps m + 1) ks) A, H2_loop m ks B)"
  using assms
proof (induction ks arbitrary: A B)
  case Nil
  then show ?case by (simp add: H1_loop_def H2_loop_def)
next
  case (Cons x ks)
  have step: "H12_step m i x (A, B) =
      (if x \<noteq> n_total_jumps m + 1 then H1_loop m i [x] A else A, H2_loop m [x] B)"
    by (simp add: H12_step_def H1_loop_def H2_loop_def t_at_def Let_def)
  show ?case
    using Cons.IH [of "if x \<noteq> n_total_jumps m + 1 then H1_loop m i [x] A else A"
        "H2_loop m [x] B"] Cons.prems
    by (simp add: step) (simp add: H1_loop_def H2_loop_def)
qed

lemma filter_not_last: "filter (\<lambda>k. k \<noteq> n + 1) [1..<1 + n + 1] = [1..<n + 1]"
proof -
  have "[1..<1 + n + 1] = [1..<n + 1] @ [n + 1]" by (simp add: upt_Suc)
  moreover have "filter (\<lambda>k. k \<noteq> n + 1) [1..<n + 1] = [1..<n + 1]"
    by (rule filter_True) auto
  ultimately show ?thesis by simp
qed

lemma H1_loop_closed:
  assumes "n < length H1_i"
  shows "H1_loop m i [1..<n_total_jumps m + 1] H1_i ! n
     = H1_i ! n + real (length (filter (\<lambda>k. global_n m ! (k - 1) = n) (events_of m i)))"
proof -
  have "filter (\<lambda>k. type_n m ! k = i + 1)
          (filter (\<lambda>k. global_n m ! (k - 1) = n) [1..<n_total_jumps m + 1])
      = filter (\<lambda>k. global_n m ! (k - 1) = n) (events_of m i)"
    by (simp add: events_of_def conj_commute del: upt_Suc)
  then show ?thesis
    unfolding H1_loop_def fold_cell_add [OF assms] sum_list_indicator by simp
qed

lemma H2_loop_closed:
  assumes "n < length H2_i"
  shows "H2_loop m [1..<1 + n_total_jumps m + 1] H2_i ! n = H2_i ! n + H2_closed m n"
  unfolding H2_loop_def fold_cell_sub [OF assms] H2_closed_def by (simp del: upt_Suc)

lemma div_cell:
  fixes a U v :: nat
  assumes "v < U"
  shows "(a * U + v) div U = a"
proof -
  have "U \<noteq> 0" using assms by auto
  then show ?thesis using assms by simp
qed

lemma sum_list_single:
  fixes c :: real
  shows "(\<Sum>v\<leftarrow>[0..<n]. if v = u then c else 0) = (if u < n then c else 0)"
  by (induction n) (auto simp add: upt_Suc)

lemma H3_loop_closed:
  assumes "n * length (decays m) + u < length H3_i" and "u < length (decays m)"
  shows "fold (\<lambda>v. fold (H3_step m i G_i v) [1..<1 + n_total_jumps m + 1])
            [0..<length (decays m)] H3_i ! (n * length (decays m) + u)
     = H3_i ! (n * length (decays m) + u)
       - (\<Sum>k\<leftarrow>filter (\<lambda>k. global_n m ! (k - 1) = n) [1..<n_total_jumps m + 2].
            G_i ! get_index m k i u)"
proof -
  let ?U = "length (decays m)"
  let ?ks = "[1..<1 + n_total_jumps m + 1]"
  have inner: "fold (H3_step m i G_i v) ?ks H ! (n * ?U + u)
      = H ! (n * ?U + u)
        - (\<Sum>k\<leftarrow>filter (\<lambda>k. global_n m ! (k - 1) * ?U + v = n * ?U + u) ?ks.
             G_i ! get_index m k i v)"
    if "n * ?U + u < length H" for v H
    unfolding H3_step_def Let_def by (rule fold_cell_sub [OF that])
  have len: "length (fold (H3_step m i G_i v) ?ks H) = length H" for v H
    by (rule fold_length) (simp add: H3_step_def Let_def)
  have key: "global_n m ! (k - 1) * ?U + v = n * ?U + u
      \<longleftrightarrow> global_n m ! (k - 1) = n \<and> v = u" if "v < ?U" for v k
  proof
    assume e: "global_n m ! (k - 1) * ?U + v = n * ?U + u"
    have "(global_n m ! (k - 1) * ?U + v) div ?U = global_n m ! (k - 1)"
      using that by (rule div_cell)
    moreover have "(n * ?U + u) div ?U = n" using assms(2) by (rule div_cell)
    ultimately have "global_n m ! (k - 1) = n" using e by simp
    then show "global_n m ! (k - 1) = n \<and> v = u" using e by simp
  qed simp
  have outer: "fold (\<lambda>v. fold (H3_step m i G_i v) ?ks) vs H ! (n * ?U + u)
      = H ! (n * ?U + u)
        - (\<Sum>v\<leftarrow>vs. \<Sum>k\<leftarrow>filter (\<lambda>k. global_n m ! (k - 1) * ?U + v = n * ?U + u) ?ks.
             G_i ! get_index m k i v)"
    if "n * ?U + u < length H" for vs H
    using that
  proof (induction vs arbitrary: H)
    case Nil
    then show ?case by simp
  next
    case (Cons v vs)
    have l: "n * ?U + u < length (fold (H3_step m i G_i v) ?ks H)"
      using Cons.prems by (simp only: len)
    have "fold (\<lambda>v. fold (H3_step m i G_i v) ?ks) (v # vs) H ! (n * ?U + u)
        = fold (\<lambda>v. fold (H3_step m i G_i v) ?ks) vs (fold (H3_step m i G_i v) ?ks H)
            ! (n * ?U + u)"
      by (simp only: fold_simps o_apply)
    also note Cons.IH [OF l]
    also note inner [OF Cons.prems]
    finally show ?case
      by (simp only: list.map sum_list.Cons diff_diff_eq)
  qed
  have pick: "(\<Sum>v\<leftarrow>[0..<?U]. \<Sum>k\<leftarrow>filter (\<lambda>k. global_n m ! (k - 1) * ?U + v = n * ?U + u) ?ks.
             G_i ! get_index m k i v)
      = (\<Sum>v\<leftarrow>[0..<?U]. if v = u
           then (\<Sum>k\<leftarrow>filter (\<lambda>k. global_n m ! (k - 1) = n) ?ks. G_i ! get_index m k i u)
           else 0)"
  proof (rule arg_cong [where f = sum_list], rule map_cong [OF refl])
    fix v assume "v \<in> set [0..<?U]"
    then have v: "v < ?U" by simp
    show "(\<Sum>k\<leftarrow>filter (\<lambda>k. global_n m ! (k - 1) * ?U + v = n * ?U + u) ?ks.
             G_i ! get_index m k i v)
        = (if v = u
           then (\<Sum>k\<leftarrow>filter (\<lambda>k. global_n m ! (k - 1) = n) ?ks. G_i ! get_index m k i u)
           else 0)"
      unfolding key [OF v] by (simp del: upt_Suc)
  qed
  have single: "(\<Sum>v\<leftarrow>[0..<?U]. if v = u then c else 0) = c" for c :: real
    using assms(2) by (simp only: sum_list_single if_True)
  have e: "?ks = [1..<n_total_jumps m + 2]" by simp
  note outer [OF assms(1), of "[0..<?U]"]
  also have "H3_i ! (n * ?U + u)
      - (\<Sum>v\<leftarrow>[0..<?U]. \<Sum>k\<leftarrow>filter (\<lambda>k. global_n m ! (k - 1) * ?U + v = n * ?U + u) ?ks.
             G_i ! get_index m k i v)
      = H3_i ! (n * ?U + u)
        - (\<Sum>k\<leftarrow>filter (\<lambda>k. global_n m ! (k - 1) = n) ?ks. G_i ! get_index m k i u)"
    by (simp only: pick single)
  finally show ?thesis by (simp only: e)
qed


lemma same_data_refl: "same_data m m"
proof -
  have "m = m\<lparr>g := g m, G := G m, H1 := H1 m, H2 := H2 m, H3 := H3 m\<rparr>" by simp
  then show ?thesis unfolding same_data_def by blast
qed

lemma same_data_trans:
  assumes "same_data m m'" and "same_data m' m''"
  shows "same_data m m''"
proof -
  obtain a b c d e where 1: "m' = m\<lparr>g := a, G := b, H1 := c, H2 := d, H3 := e\<rparr>"
    using assms(1) unfolding same_data_def by blast
  obtain a' b' c' d' e' where 2: "m'' = m'\<lparr>g := a', G := b', H1 := c', H2 := d', H3 := e'\<rparr>"
    using assms(2) unfolding same_data_def by blast
  have "m'' = m\<lparr>g := a', G := b', H1 := c', H2 := d', H3 := e'\<rparr>"
    unfolding 2 1 by simp
  then show ?thesis unfolding same_data_def by blast
qed

lemma same_data_fields:
  assumes "same_data m m'"
  shows "n_nodes m' = n_nodes m" "n_total_jumps m' = n_total_jumps m" "decays m' = decays m"
    "lags m' = lags m" "MaxN_of_f m' = MaxN_of_f m" "global_n m' = global_n m"
    "global_timestamps m' = global_timestamps m" "type_n m' = type_n m"
    "end_time m' = end_time m" "Total_events m' = Total_events m" "sum_G m' = sum_G m"
    "get_alpha_u_i_j_index m' = get_alpha_u_i_j_index m"
    "weights_computed m' = weights_computed m"
  using assms unfolding same_data_def by auto

lemma same_data_derived:
  assumes "same_data m m'"
  shows "get_index m' = get_index m" "events_of m' = events_of m" "t_at m' = t_at m"
    "H1_closed m' = H1_closed m" "H2_closed m' = H2_closed m" "f_of m' = f_of m"
proof -
  note f = same_data_fields [OF assms]
  show "get_index m' = get_index m"
    by (simp add: fun_eq_iff get_index_def get_n_decays_def f)
  show e: "events_of m' = events_of m"
    by (simp add: fun_eq_iff events_of_def f)
  show t: "t_at m' = t_at m"
    by (simp add: fun_eq_iff t_at_def f)
  show "H1_closed m' = H1_closed m"
    by (simp add: fun_eq_iff H1_closed_def f e)
  show "H2_closed m' = H2_closed m"
    by (simp add: fun_eq_iff H2_closed_def f t del: upt_Suc)
  show "f_of m' = f_of m"
    by (simp add: fun_eq_iff f_of_def f)
qed

lemma fold_allocate_nth:
  assumes "length (g m0) = D" "length (G m0) = D" "length (sum_G m0) = D"
    "length (H1 m0) = D" "length (H2 m0) = D" "length (H3 m0) = D"
  shows "n \<le> D \<Longrightarrow>
     length (g (fold allocate_step [0..<n] m0)) = D
     \<and> length (G (fold allocate_step [0..<n] m0)) = D
     \<and> length (sum_G (fold allocate_step [0..<n] m0)) = D
     \<and> length (H1 (fold allocate_step [0..<n] m0)) = D
     \<and> length (H2 (fold allocate_step [0..<n] m0)) = D
     \<and> length (H3 (fold allocate_step [0..<n] m0)) = D
     \<and> (0 < n \<longrightarrow> g (fold allocate_step [0..<n] m0) ! 0
            = replicate ((n_total_jumps m0 + 2) * (n_nodes m0 * length (decays m0))) 0)
     \<and> (\<forall>i<n. G (fold allocate_step [0..<n] m0) ! i
            = replicate ((n_total_jumps m0 + 2) * (n_nodes m0 * length (decays m0))) 0
          \<and> sum_G (fold allocate_step [0..<n] m0) ! i
            = replicate (n_nodes m0 * length (decays m0)) 0
          \<and> H1 (fold allocate_step [0..<n] m0) ! i = replicate (MaxN_of_f m0) 0
          \<and> H2 (fold allocate_step [0..<n] m0) ! i = replicate (MaxN_of_f m0) 0
          \<and> H3 (fold allocate_step [0..<n] m0) ! i
            = replicate (MaxN_of_f m0 * length (decays m0)) 0)"
proof (induction n)
  case 0
  then show ?case using assms by simp
next
  case (Suc n)
  let ?m = "fold allocate_step [0..<n] m0"
  have IH: "length (g ?m) = D" "length (G ?m) = D" "length (sum_G ?m) = D"
    "length (H1 ?m) = D" "length (H2 ?m) = D" "length (H3 ?m) = D"
    "0 < n \<longrightarrow> g ?m ! 0
        = replicate ((n_total_jumps m0 + 2) * (n_nodes m0 * length (decays m0))) 0"
    "\<forall>i<n. G ?m ! i = replicate ((n_total_jumps m0 + 2) * (n_nodes m0 * length (decays m0))) 0
          \<and> sum_G ?m ! i = replicate (n_nodes m0 * length (decays m0)) 0
          \<and> H1 ?m ! i = replicate (MaxN_of_f m0) 0
          \<and> H2 ?m ! i = replicate (MaxN_of_f m0) 0
          \<and> H3 ?m ! i = replicate (MaxN_of_f m0 * length (decays m0)) 0"
    using Suc by simp_all
  have n: "n < D" using Suc.prems by simp
  have e: "fold allocate_step [0..<Suc n] m0 = allocate_step n ?m" by (simp add: upt_Suc)
  show ?case
    unfolding e using IH n
    by (auto simp add: allocate_step_def Let_def fold_allocate_step_frame nth_list_update
        less_Suc_eq)
qed

lemma allocate_weights_arrays:
  assumes "allocate_weights m = Inr m1"
  shows "same_data (m\<lparr>Total_events := n_total_jumps m - n_jumps_per_node m ! n_nodes m,
                     sum_G := sum_G m1\<rparr>) m1"
    and "n_nodes m \<noteq> 0"
    and "length (G m1) = n_nodes m" "length (H1 m1) = n_nodes m"
    and "length (H2 m1) = n_nodes m" "length (H3 m1) = n_nodes m"
    and "length (g m1) = n_nodes m"
    and "g m1 ! 0 = replicate ((n_total_jumps m + 2) * (n_nodes m * length (decays m))) 0"
    and "\<And>i. i < n_nodes m \<Longrightarrow>
           G m1 ! i = replicate ((n_total_jumps m + 2) * (n_nodes m * length (decays m))) 0"
    and "\<And>i. i < n_nodes m \<Longrightarrow> H1 m1 ! i = replicate (MaxN_of_f m) 0"
    and "\<And>i. i < n_nodes m \<Longrightarrow> H2 m1 ! i = replicate (MaxN_of_f m) 0"
    and "\<And>i. i < n_nodes m \<Longrightarrow> H3 m1 ! i = replicate (MaxN_of_f m * length (decays m)) 0"
proof -
  let ?m0 = "m\<lparr>Total_events := n_total_jumps m - n_jumps_per_node m ! n_nodes m,
                   g := replicate (n_nodes m) [], G := replicate (n_nodes m) [],
                   sum_G := replicate (n_nodes m) [],
                   H1 := replicate (n_nodes m) [], H2 := replicate (n_nodes m) [],
                   H3 := replicate (n_nodes m) []\<rparr>"
  show nz: "n_nodes m \<noteq> 0"
    using assms by (auto simp add: allocate_weights_def split: if_splits)
  have m1: "m1 = fold allocate_step [0..<n_nodes m] ?m0"
    using assms nz by (simp add: allocate_weights_def Let_def)
  have "m1 = (m\<lparr>Total_events := n_total_jumps m - n_jumps_per_node m ! n_nodes m,
                     sum_G := sum_G m1\<rparr>)\<lparr>g := g m1, G := G m1, H1 := H1 m1, H2 := H2 m1,
                     H3 := H3 m1\<rparr>"
    by (rule model.equality) (simp_all add: m1 fold_allocate_step_frame)
  then show "same_data (m\<lparr>Total_events := n_total_jumps m - n_jumps_per_node m ! n_nodes m,
                     sum_G := sum_G m1\<rparr>) m1"
    unfolding same_data_def by blast
  note A = fold_allocate_nth [where ?m0.0 = ?m0 and D = "n_nodes m" and n = "n_nodes m",
      simplified, folded m1]
  show "length (G m1) = n_nodes m" "length (H1 m1) = n_nodes m"
    "length (H2 m1) = n_nodes m" "length (H3 m1) = n_nodes m" "length (g m1) = n_nodes m"
    using A by simp_all
  show "g m1 ! 0 = replicate ((n_total_jumps m + 2) * (n_nodes m * length (decays m))) 0"
    using A nz by simp
  show "G m1 ! i = replicate ((n_total_jumps m + 2) * (n_nodes m * length (decays m))) 0"
    if "i < n_nodes m" for i using A that by simp
  show "H1 m1 ! i = replicate (MaxN_of_f m) 0" if "i < n_nodes m" for i using A that by simp
  show "H2 m1 ! i = replicate (MaxN_of_f m) 0" if "i < n_nodes m" for i using A that by simp
  show "H3 m1 ! i = replicate (MaxN_of_f m * length (decays m)) 0" if "i < n_nodes m" for i
    using A that by simp
qed


lemma foldE_append:
  "foldE f (xs @ ys) s = (case foldE f xs s of Inl e \<Rightarrow> Inl e | Inr s' \<Rightarrow> foldE f ys s')"
  by (induction xs arbitrary: s) (simp_all split: sum.splits)

lemma foldE_upt_Suc:
  "foldE f [0..<Suc n] s = (case foldE f [0..<n] s of Inl e \<Rightarrow> Inl e | Inr s' \<Rightarrow> f n s')"
  by (simp add: foldE_append upt_Suc split: sum.splits)


lemma fold_H12_step_range:
  "fold (H12_step m i) [Suc 0..<Suc (Suc (n_total_jumps m))] (A, B)
     = (H1_loop m i [Suc 0..<Suc (n_total_jumps m)] A,
        H2_loop m [Suc 0..<Suc (Suc (n_total_jumps m))] B)"
proof -
  have b: "\<forall>k\<in>set [1..<1 + n_total_jumps m + 1]. k \<le> n_total_jumps m + 1"
    by simp
  show ?thesis
    using fold_H12_step [OF b, where i = i and A = A and B = B]
      filter_not_last [of "n_total_jumps m"] by simp
qed

lemma compute_weights_dim_i_result:
  assumes "compute_weights_dim_i i m = Inr m'"
  shows "\<exists>g_i G_i. weights_gG m i (g m ! 0, G m ! i) = Inr (g_i, G_i)
     \<and> m' = m\<lparr>g := (g m)[0 := g_i], G := (G m)[i := G_i],
               H1 := (H1 m)[i := H1_loop m i [1..<n_total_jumps m + 1]
                         ((H1 m ! i)[global_n m ! n_total_jumps m :=
                            (H1 m ! i) ! (global_n m ! n_total_jumps m) - 1])],
               H2 := (H2 m)[i := H2_loop m [1..<1 + n_total_jumps m + 1] (H2 m ! i)],
               H3 := (H3 m)[i := fold (\<lambda>v. fold (H3_step m i G_i v) [1..<1 + n_total_jumps m + 1])
                                   [0..<length (decays m)] (H3 m ! i)]\<rparr>"
proof -
  obtain g_i G_i where w: "weights_gG m i (g m ! 0, G m ! i) = Inr (g_i, G_i)"
    using assms by (auto simp add: compute_weights_dim_i_def split: sum.splits)
  have "m' = m\<lparr>g := (g m)[0 := g_i], G := (G m)[i := G_i],
               H1 := (H1 m)[i := H1_loop m i [1..<n_total_jumps m + 1]
                         ((H1 m ! i)[global_n m ! n_total_jumps m :=
                            (H1 m ! i) ! (global_n m ! n_total_jumps m) - 1])],
               H2 := (H2 m)[i := H2_loop m [1..<1 + n_total_jumps m + 1] (H2 m ! i)],
               H3 := (H3 m)[i := fold (\<lambda>v. fold (H3_step m i G_i v) [1..<1 + n_total_jumps m + 1])
                                   [0..<length (decays m)] (H3 m ! i)]\<rparr>"
    using assms by (simp add: compute_weights_dim_i_def w Let_def fold_H12_step_range)
  then show ?thesis using w by blast
qed

lemma compute_weights_dim_i_same_data:
  assumes "compute_weights_dim_i i m = Inr m'"
  shows "same_data m m'"
  using compute_weights_dim_i_result [OF assms] unfolding same_data_def by blast

lemma compute_weights_dim_i_frame:
  assumes "compute_weights_dim_i i m = Inr m'"
  shows "length (G m') = length (G m)" "length (H1 m') = length (H1 m)"
    "length (H2 m') = length (H2 m)" "length (H3 m') = length (H3 m)"
    "length (g m') = length (g m)"
    "\<And>j. j \<noteq> i \<Longrightarrow> G m' ! j = G m ! j" "\<And>j. j \<noteq> i \<Longrightarrow> H1 m' ! j = H1 m ! j"
    "\<And>j. j \<noteq> i \<Longrightarrow> H2 m' ! j = H2 m ! j" "\<And>j. j \<noteq> i \<Longrightarrow> H3 m' ! j = H3 m ! j"
  using compute_weights_dim_i_result [OF assms] by auto

lemma compute_weights_dim_i_H:
  assumes r: "compute_weights_dim_i i m = Inr m'"
    and len: "i < length (G m)" "i < length (H1 m)" "i < length (H2 m)" "i < length (H3 m)"
    and zero: "H1 m ! i = replicate (MaxN_of_f m) 0" "H2 m ! i = replicate (MaxN_of_f m) 0"
      "H3 m ! i = replicate (MaxN_of_f m * length (decays m)) 0"
    and n: "n < MaxN_of_f m"
  shows "(H1 m' ! i) ! n = H1_closed m i n" "(H2 m' ! i) ! n = H2_closed m n"
    "\<And>u. u < length (decays m) \<Longrightarrow> (H3 m' ! i) ! (n * length (decays m) + u) = H3_closed m' i n u"
proof -
  let ?H1a = "(H1 m ! i)[global_n m ! n_total_jumps m :=
                            (H1 m ! i) ! (global_n m ! n_total_jumps m) - 1]"
  obtain g_i G_i where w: "weights_gG m i (g m ! 0, G m ! i) = Inr (g_i, G_i)"
    and m': "m' = m\<lparr>g := (g m)[0 := g_i], G := (G m)[i := G_i],
               H1 := (H1 m)[i := H1_loop m i [1..<n_total_jumps m + 1] ?H1a],
               H2 := (H2 m)[i := H2_loop m [1..<1 + n_total_jumps m + 1] (H2 m ! i)],
               H3 := (H3 m)[i := fold (\<lambda>v. fold (H3_step m i G_i v) [1..<1 + n_total_jumps m + 1])
                                   [0..<length (decays m)] (H3 m ! i)]\<rparr>"
    using compute_weights_dim_i_result [OF r] by blast
  have l1: "n < length ?H1a" using zero n by simp
  have "H1 m' ! i = H1_loop m i [1..<n_total_jumps m + 1] ?H1a"
    unfolding m' using len by simp
  also note H1_loop_closed [OF l1]
  also have "?H1a ! n = - (if global_n m ! n_total_jumps m = n then 1 else 0)"
    using zero n by (simp add: nth_list_update)
  finally show "(H1 m' ! i) ! n = H1_closed m i n"
    by (simp add: H1_closed_def)
  have l2: "n < length (H2 m ! i)" using zero n by simp
  have "H2 m' ! i = H2_loop m [1..<1 + n_total_jumps m + 1] (H2 m ! i)"
    unfolding m' using len by simp
  also note H2_loop_closed [OF l2]
  finally show "(H2 m' ! i) ! n = H2_closed m n"
    using zero n by simp
  show "(H3 m' ! i) ! (n * length (decays m) + u) = H3_closed m' i n u"
    if u: "u < length (decays m)" for u
  proof -
    have "n * length (decays m) + u < (n + 1) * length (decays m)" using u by simp
    also have "\<dots> \<le> MaxN_of_f m * length (decays m)"
      using n by (intro mult_le_mono1) simp
    finally have l3: "n * length (decays m) + u < length (H3 m ! i)" using zero by simp
    have gi: "get_index m' = get_index m"
      using same_data_derived(1) [OF compute_weights_dim_i_same_data [OF r]] .
    have G': "G m' ! i = G_i" unfolding m' using len by simp
    have nm: "n_total_jumps m' = n_total_jumps m" "global_n m' = global_n m"
      unfolding m' by simp_all
    have "H3 m' ! i = fold (\<lambda>v. fold (H3_step m i G_i v) [1..<1 + n_total_jumps m + 1])
                                   [0..<length (decays m)] (H3 m ! i)"
      unfolding m' using len by simp
    also note H3_loop_closed [OF l3 u]
    finally show ?thesis
      unfolding H3_closed_def gi G' nm using zero l3 by simp
  qed
qed


lemma foldE_dims_H:
  assumes lens: "length (G m1) = n_nodes m1" "length (H1 m1) = n_nodes m1"
      "length (H2 m1) = n_nodes m1" "length (H3 m1) = n_nodes m1"
    and zeros: "\<And>i. i < n_nodes m1 \<Longrightarrow> H1 m1 ! i = replicate (MaxN_of_f m1) 0"
      "\<And>i. i < n_nodes m1 \<Longrightarrow> H2 m1 ! i = replicate (MaxN_of_f m1) 0"
      "\<And>i. i < n_nodes m1 \<Longrightarrow> H3 m1 ! i = replicate (MaxN_of_f m1 * length (decays m1)) 0"
  shows "n \<le> n_nodes m1 \<Longrightarrow> foldE compute_weights_dim_i [0..<n] m1 = Inr m' \<Longrightarrow>
     same_data m1 m'
     \<and> length (G m') = n_nodes m1 \<and> length (H1 m') = n_nodes m1
     \<and> length (H2 m') = n_nodes m1 \<and> length (H3 m') = n_nodes m1
     \<and> (\<forall>i<n. \<forall>p<MaxN_of_f m1.
            (H1 m' ! i) ! p = H1_closed m1 i p \<and> (H2 m' ! i) ! p = H2_closed m1 p
            \<and> (\<forall>u<length (decays m1).
                  (H3 m' ! i) ! (p * length (decays m1) + u) = H3_closed m' i p u))
     \<and> (\<forall>i. n \<le> i \<and> i < n_nodes m1 \<longrightarrow>
            H1 m' ! i = replicate (MaxN_of_f m1) 0 \<and> H2 m' ! i = replicate (MaxN_of_f m1) 0
            \<and> H3 m' ! i = replicate (MaxN_of_f m1 * length (decays m1)) 0)"
proof (induction n arbitrary: m')
  case 0
  then show ?case using lens zeros by (simp add: same_data_refl)
next
  case (Suc n)
  obtain m2 where m2: "foldE compute_weights_dim_i [0..<n] m1 = Inr m2"
    and step: "compute_weights_dim_i n m2 = Inr m'"
    using Suc.prems(2) by (auto simp add: foldE_upt_Suc split: sum.splits)
  have n: "n < n_nodes m1" using Suc.prems(1) by simp
  have IH: "same_data m1 m2" "length (G m2) = n_nodes m1" "length (H1 m2) = n_nodes m1"
    "length (H2 m2) = n_nodes m1" "length (H3 m2) = n_nodes m1"
    "\<forall>i<n. \<forall>p<MaxN_of_f m1.
            (H1 m2 ! i) ! p = H1_closed m1 i p \<and> (H2 m2 ! i) ! p = H2_closed m1 p
            \<and> (\<forall>u<length (decays m1).
                  (H3 m2 ! i) ! (p * length (decays m1) + u) = H3_closed m2 i p u)"
    "\<forall>i. n \<le> i \<and> i < n_nodes m1 \<longrightarrow>
            H1 m2 ! i = replicate (MaxN_of_f m1) 0 \<and> H2 m2 ! i = replicate (MaxN_of_f m1) 0
            \<and> H3 m2 ! i = replicate (MaxN_of_f m1 * length (decays m1)) 0"
    using Suc.IH [OF _ m2] n by simp_all
  note f2 = same_data_fields [OF IH(1)]
  note d2 = same_data_derived [OF IH(1)]
  note sd = compute_weights_dim_i_same_data [OF step]
  note fr = compute_weights_dim_i_frame [OF step]
  have sd': "same_data m1 m'" using same_data_trans [OF IH(1) sd] .
  have zn: "H1 m2 ! n = replicate (MaxN_of_f m2) 0" "H2 m2 ! n = replicate (MaxN_of_f m2) 0"
    "H3 m2 ! n = replicate (MaxN_of_f m2 * length (decays m2)) 0"
    using IH(7) n by (simp_all add: f2)
  have ln: "n < length (G m2)" "n < length (H1 m2)" "n < length (H2 m2)" "n < length (H3 m2)"
    using IH(2-5) n by simp_all
  have new: "(H1 m' ! n) ! p = H1_closed m1 n p \<and> (H2 m' ! n) ! p = H2_closed m1 p
            \<and> (\<forall>u<length (decays m1).
                  (H3 m' ! n) ! (p * length (decays m1) + u) = H3_closed m' n p u)"
    if p: "p < MaxN_of_f m1" for p
  proof -
    have p2: "p < MaxN_of_f m2" using p by (simp add: f2)
    note H = compute_weights_dim_i_H [OF step ln zn p2]
    show ?thesis using H by (simp add: d2 f2)
  qed
  have old: "(H1 m' ! i) ! p = H1_closed m1 i p \<and> (H2 m' ! i) ! p = H2_closed m1 p
            \<and> (\<forall>u<length (decays m1).
                  (H3 m' ! i) ! (p * length (decays m1) + u) = H3_closed m' i p u)"
    if i: "i < n" and p: "p < MaxN_of_f m1" for i p
  proof -
    have ne: "i \<noteq> n" using i by simp
    have "H3_closed m' i p u = H3_closed m2 i p u" for u
      by (simp add: H3_closed_def fr(6) [OF ne] same_data_derived(1) [OF sd]
          same_data_fields [OF sd])
    then show ?thesis using IH(6) i p by (simp add: fr(7-9) [OF ne])
  qed
  have rest: "H1 m' ! i = replicate (MaxN_of_f m1) 0 \<and> H2 m' ! i = replicate (MaxN_of_f m1) 0
            \<and> H3 m' ! i = replicate (MaxN_of_f m1 * length (decays m1)) 0"
    if "Suc n \<le> i" "i < n_nodes m1" for i
  proof -
    have ne: "i \<noteq> n" using that by simp
    show ?thesis using IH(7) that by (simp add: fr(7-9) [OF ne])
  qed
  show ?case
    using sd' fr(1-4) IH(2-5) new old rest by (simp add: less_Suc_eq)
qed

lemma compute_weights_result:
  assumes "compute_weights m = Inr mW"
  shows "\<exists>m1 m2. allocate_weights m = Inr m1
     \<and> foldE compute_weights_dim_i [0..<n_nodes m1] m1 = Inr m2
     \<and> mW = m2\<lparr>weights_computed := True\<rparr>"
  using assms by (auto simp add: compute_weights_def split: sum.splits)

lemma flag_frame:
  "get_index (m\<lparr>weights_computed := b\<rparr>) = get_index m"
  "events_of (m\<lparr>weights_computed := b\<rparr>) = events_of m"
  "t_at (m\<lparr>weights_computed := b\<rparr>) = t_at m"
  by (simp_all add: fun_eq_iff get_index_def get_n_decays_def events_of_def t_at_def)

lemma flag_frame_closed:
  "H1_closed (m\<lparr>weights_computed := b\<rparr>) = H1_closed m"
  "H2_closed (m\<lparr>weights_computed := b\<rparr>) = H2_closed m"
  "H3_closed (m\<lparr>weights_computed := b\<rparr>) = H3_closed m"
  by (simp_all add: fun_eq_iff H1_closed_def H2_closed_def H3_closed_def flag_frame)

lemma compute_weights_H:
  assumes "compute_weights m = Inr mW" and "i < n_nodes mW" and "n < MaxN_of_f mW"
  shows "(H1 mW ! i) ! n = H1_closed mW i n" "(H2 mW ! i) ! n = H2_closed mW n"
    "\<And>u. u < length (decays mW) \<Longrightarrow>
       (H3 mW ! i) ! (n * length (decays mW) + u) = H3_closed mW i n u"
proof -
  obtain m1 m2 where a: "allocate_weights m = Inr m1"
    and f: "foldE compute_weights_dim_i [0..<n_nodes m1] m1 = Inr m2"
    and mW: "mW = m2\<lparr>weights_computed := True\<rparr>"
    using compute_weights_result [OF assms(1)] by blast
  note A = allocate_weights_arrays [OF a]
  note f1 = same_data_fields [OF A(1), simplified]
  have lens: "length (G m1) = n_nodes m1" "length (H1 m1) = n_nodes m1"
      "length (H2 m1) = n_nodes m1" "length (H3 m1) = n_nodes m1"
    using A(3-6) by (simp_all add: f1)
  have zeros: "\<And>i. i < n_nodes m1 \<Longrightarrow> H1 m1 ! i = replicate (MaxN_of_f m1) 0"
      "\<And>i. i < n_nodes m1 \<Longrightarrow> H2 m1 ! i = replicate (MaxN_of_f m1) 0"
      "\<And>i. i < n_nodes m1 \<Longrightarrow> H3 m1 ! i = replicate (MaxN_of_f m1 * length (decays m1)) 0"
    using A(10-12) by (simp_all add: f1)
  note R = foldE_dims_H [OF lens zeros order_refl f]
  have sd: "same_data m1 m2" using R by simp
  note f2 = same_data_fields [OF sd]
  have i: "i < n_nodes m1" and n: "n < MaxN_of_f m1"
    using assms(2,3) by (simp_all add: mW f2)
  have c1: "H1_closed mW = H1_closed m1" "H2_closed mW = H2_closed m1"
    unfolding mW flag_frame_closed using same_data_derived [OF sd] by simp_all
  have c3: "H3_closed mW = H3_closed m2"
    unfolding mW flag_frame_closed ..
  show "(H1 mW ! i) ! n = H1_closed mW i n" "(H2 mW ! i) ! n = H2_closed mW n"
    using R i n unfolding c1 by (simp_all add: mW)
  show "(H3 mW ! i) ! (n * length (decays mW) + u) = H3_closed mW i n u"
    if "u < length (decays mW)" for u
    using R i n that unfolding c3 by (simp add: mW f2)
qed

lemma fold_fold_frame:
  assumes "\<And>j u s. j \<in> set js \<Longrightarrow> u \<in> set us \<Longrightarrow> f j u s ! p = s ! p"
  shows "fold (\<lambda>j. fold (f j) us) js s ! p = s ! p"
  by (rule fold_frame, rule fold_frame) (rule assms)

lemma events_by_flag:
  "filter (tmp_flag m i) [1..<n_total_jumps m + 1] = events_of m i"
  unfolding events_of_def by (rule filter_cong) (auto simp add: tmp_flag_def)

lemma grad_dim_i_mu_entry:
  assumes i: "i < n_nodes m" and len: "get_n_coeffs m \<le> length out"
    and noal: "\<forall>j<n_nodes m. \<forall>u<length (decays m). get_alpha_u_i_j_index m u i j \<noteq> i"
  shows "grad_dim_i i coeffs m out ! i =
     (\<Sum>k\<leftarrow>events_of m i. 1 / intensity m coeffs i k)
     - (\<Sum>k\<leftarrow>[1..<n_total_jumps m + 2].
          (t_at m k - global_timestamps m ! (k - 1)) * f_of m i coeffs ! (global_n m ! (k - 1)))"
proof -
  have il: "i < length out" using i len by (simp add: get_n_coeffs_def)
  have a: "get_alpha_u_i_j_index m u i j \<noteq> i"
    if "j \<in> set [0..<n_nodes m]" "u \<in> set [0..<length (decays m)]" for j u
    using noal that by simp
  have ne6: "n_nodes m + n_nodes m * n_nodes m * length (decays m) + i * MaxN_of_f m + x \<noteq> i"
    for x using i by simp
  have fr_alpha: "fold (\<lambda>j. fold (\<lambda>u out. out[get_alpha_u_i_j_index m u i j := h j u out])
                          [0..<length (decays m)]) [0..<n_nodes m] s ! i = s ! i" for h s
    by (rule fold_fold_frame) (simp add: a)
  have l2: "i < length (out[i := 0])" using il by simp
  have l3: "i < length (fold (\<lambda>k out.
                         if tmp_flag m i k
                         then out[i := out ! i + 1 / intensity_loop m i coeffs k]
                         else out)
                   [1..<n_total_jumps m + 1] (out[i := 0]))"
    using il by (subst fold_length) simp_all
  have e: "[1..<1 + n_total_jumps m + 1] = [1..<n_total_jumps m + 2]" by simp
  have t: "(if k \<noteq> n_total_jumps m + 1 then global_timestamps m ! k else end_time m) = t_at m k"
    for k by (simp add: t_at_def)
  show ?thesis
    unfolding grad_dim_i_def Let_def t
    apply (rule trans [OF fold_frame])
     apply (rule nth_list_update_neq)
     apply (rule ne6)
    apply (rule trans [OF fr_alpha])
    apply (rule trans [OF fold_frame])
     apply (simp add: fr_alpha)
    apply (rule trans [OF fold_acc_sub [OF l3]])
    apply (simp only: fold_acc_cond_add [OF l2] events_by_flag intensity_loop_eq e)
    apply (simp add: il)
    done
qed


text \<open>
  Claim C7. With the weights computed by \<open>compute_weights\<close>, for every dimension \<open>i\<close> and
  state \<open>n\<close> the entry that \<open>grad_dim_i\<close> writes for \<open>f_i[n]\<close> (before the division by
  \<open>Total_events\<close> and the negation) is
  \<open>H1_i[n] / f_i[n] + mu_i H2_i[n] + \<Sum>j \<Sum>u alpha_u_i_j H3_j[n, u]\<close>, with \<open>f_i[n]\<close> the
  entry of the coefficient vector at the position the gradient entry is written to, where
  \<open>H1_i[n]\<close> has been incremented by 1 for every event of dimension \<open>i\<close> in state \<open>n\<close> and
  decremented by 1 at the state of the final event, \<open>H2_i[n]\<close> has been decremented by the
  length of every interval spent in state \<open>n\<close> (the terminal interval included), and
  \<open>H3_i[n, u]\<close> has been decremented by \<open>G_i(k, i, u)\<close> for every interval spent in state \<open>n\<close>.
\<close>

theorem link_gradient_from_statistics:
  assumes "compute_weights m = Inr mW" and "i < n_nodes mW" and "n < MaxN_of_f mW"
    and "get_n_coeffs mW \<le> length out"
  shows "grad_dim_i i coeffs mW out ! f_index mW i n =
       (H1 mW ! i) ! n / coeffs ! f_index mW i n + coeffs ! i * (H2 mW ! i) ! n
       + (\<Sum>j\<leftarrow>[0..<n_nodes mW]. \<Sum>u\<leftarrow>[0..<length (decays mW)].
            coeffs ! get_alpha_u_i_j_index mW u i j * (H3 mW ! j) ! (n * length (decays mW) + u))
     \<and> (H1 mW ! i) ! n = H1_closed mW i n
     \<and> (H2 mW ! i) ! n = H2_closed mW n
     \<and> (\<forall>u<length (decays mW). (H3 mW ! i) ! (n * length (decays mW) + u) = H3_closed mW i n u)"
  using grad_dim_i_f_entry [OF assms(2,3,4)] compute_weights_H [OF assms(1,2,3)]
    f_of_nth [OF assms(3)] by simp

theorem link_gradient_from_statistics_witness:
  "compute_weights ex_states = Inr ex_states_weights
   \<and> f_index ex_states_weights 0 1 = 3
   \<and> grad_dim_i 0 [1, 2, 3, 4] ex_states_weights [0, 0, 0, 0] ! f_index ex_states_weights 0 1
       = 1 / 4 + 1 * (- 1) + 2 * (exp (- 1) - 1)
   \<and> H1_closed ex_states_weights 0 1 = 1
   \<and> H2_closed ex_states_weights 1 = - 1
   \<and> H3_closed ex_states_weights 0 1 0 = exp (- 1) - 1"
proof -
  have c: "compute_weights ex_states = Inr ex_states_weights"
    by (rule ex_states_compute_weights)
  have i: "0 < n_nodes ex_states_weights" and n: "1 < MaxN_of_f ex_states_weights"
    and l: "get_n_coeffs ex_states_weights \<le> length [0, 0, 0, 0 :: real]"
    by (simp_all add: ex_states_weights_fields get_n_coeffs_def)
  note t = link_gradient_from_statistics [OF c i n l, of "[1, 2, 3, 4]"]
  have e: "grad_dim_i 0 [1, 2, 3, 4] ex_states_weights [0, 0, 0, 0] ! f_index ex_states_weights 0 1
      = 1 / 4 + 1 * (- 1) + 2 * (exp (- 1) - 1)"
    using conjunct1 [OF t] by (simp add: ex_states_weights_fields f_index_def upt_small)
  have h1: "H1_closed ex_states_weights 0 1 = 1"
    using conjunct1 [OF conjunct2 [OF t]] by (simp add: ex_states_weights_fields)
  have h2: "H2_closed ex_states_weights 1 = - 1"
    using conjunct1 [OF conjunct2 [OF conjunct2 [OF t]]] by (simp add: ex_states_weights_fields)
  have h3: "H3_closed ex_states_weights 0 1 0 = exp (- 1) - 1"
    using conjunct2 [OF conjunct2 [OF conjunct2 [OF t]]] by (simp add: ex_states_weights_fields)
  have f: "f_index ex_states_weights 0 1 = 3"
    by (simp add: f_index_def ex_states_weights_fields)
  show ?thesis using c f e h1 h2 h3 by (simp only: simp_thms)
qed

text \<open>
  Claim C6, at the small dataset with coefficients \<open>mu = 1\<close>, \<open>alpha = 0\<close>, \<open>f = 1\<close>. The
  loop of \<open>grad_dim_i\<close> for the mu-gradient runs over \<open>k = 1..M\<close> only, so its branch for
  the terminal step \<open>k = M + 1\<close> is never taken: the entry is \<open>1 / 1 - 2 = - 1\<close>, the event's
  term less the two interval lengths. With the terminal step accumulated as well, as the
  claim words it, the entry would be \<open>1 / 1 + 1 / 1 - 2 = 0\<close>.
\<close>

theorem mu_gradient_skips_terminal_step:
  "grad_dim_i 0 [1, 0, 1] ex_weights [0, 0, 0] ! 0 = - 1
   \<and> spec_grad_mu ex_weights [1, 0, 1] 0 = 0"
  by (simp add: grad_dim_i_def spec_grad_mu_def ex_events ex_weights_fields Let_def upt_small
      tmp_flag_def intensity_loop_def intensity_def t_at_def f_of_def sum_G_loop_def
      get_index_def get_n_decays_def)

text \<open>
  Claim C4, at the small dataset with coefficients \<open>mu = - 1\<close>, \<open>alpha = 0\<close>, \<open>f = 1\<close>. The
  conditional intensity at the one event is \<open>- 1\<close>; \<open>loss\<close> raises the \<open>DomainError\<close>, while
  \<open>grad\<close>, which has no check of the denominator, divides by it and returns a gradient.
\<close>

theorem grad_returns_on_negative_intensity:
  "intensity ex_weights [- 1, 0, 1] 0 1 < 0
   \<and> fst (loss [- 1, 0, 1] ex_bound) = Inl DomainError
   \<and> fst (grad [- 1, 0, 1] [0, 0, 0] ex_bound) = Inr [3, 1, - 2]"
  by (simp add: loss_def grad_def grad_pass_def grad_dim_i_def loss_dim_i_def term2_step_def
      ex_ensure_weights ex_weights_fields Let_def upt_small tmp_flag_def intensity_loop_def
      intensity_def f_of_def sum_G_loop_def get_index_def get_n_decays_def get_n_coeffs_def)

section \<open>The recursive kernel sums\<close>

lemma add_at_zero: "add_at xs n 0 = xs"
  by (simp add: add_at_def)

lemma add_at_add: "add_at (add_at xs n a) n b = add_at xs n (a + b)"
proof (cases "n < length xs")
  case True
  then show ?thesis by (simp add: add_at_def algebra_simps)
next
  case False
  then show ?thesis by (simp add: add_at_def list_update_beyond not_less)
qed

lemma contrib_Nil: "g_contrib m j decay lag t_k [] = 0" "G_contrib m j decay lag t_k [] = 0"
  by (simp_all add: g_contrib_def G_contrib_def)

lemma contrib_Cons:
  "g_contrib m j decay lag t_k (e # es) =
     (if type_n m ! e = j + 1
      then decay * exp (- decay * (t_k - lag - global_timestamps m ! e)) else 0)
     + g_contrib m j decay lag t_k es"
  "G_contrib m j decay lag t_k (e # es) =
     (if type_n m ! e = j + 1
      then 1 - exp (- decay * (t_k - lag - global_timestamps m ! e)) else 0)
     + G_contrib m j decay lag t_k es"
  by (simp_all add: g_contrib_def G_contrib_def)

lemma scan_result:
  assumes "length (global_timestamps m) = n_total_jumps m + 1"
    and "length (type_n m) = n_total_jumps m + 1"
  shows "1 \<le> p \<Longrightarrow> p \<le> n_total_jumps m \<Longrightarrow>
     \<exists>q. scan m i j u k t_k decay lag p g_i G_i =
           Inr (q,
                if i = 0 then add_at g_i (get_index m k j u) (g_contrib m j decay lag t_k [p..<q])
                else g_i,
                add_at G_i (get_index m k j u) (G_contrib m j decay lag t_k [p..<q]))
         \<and> p \<le> q \<and> q \<le> n_total_jumps m + 1
         \<and> (\<forall>e. p \<le> e \<and> e < q \<longrightarrow> global_timestamps m ! e < t_k - lag)
         \<and> (q \<le> n_total_jumps m \<longrightarrow> \<not> global_timestamps m ! q < t_k - lag)"
proof (induction "n_total_jumps m + 1 - p" arbitrary: p g_i G_i)
  case 0
  then show ?case by simp
next
  case (Suc d)
  let ?idx = "get_index m k j u"
  let ?cg = "decay * exp (- decay * (t_k - lag - global_timestamps m ! p))"
  let ?cG = "1 - exp (- decay * (t_k - lag - global_timestamps m ! p))"
  have inb: "\<not> length (global_timestamps m) \<le> p" "\<not> length (type_n m) \<le> p"
    using assms Suc.prems by simp_all
  show ?case
  proof (cases "global_timestamps m ! p < t_k - lag")
    case False
    have "scan m i j u k t_k decay lag p g_i G_i = Inr (p, g_i, G_i)"
      using inb False by (subst scan.simps) simp
    then show ?thesis
      using False Suc.prems by (intro exI [of _ p]) (simp add: contrib_Nil add_at_zero)
  next
    case True
    let ?hit = "type_n m ! p = j + 1"
    let ?g1 = "if ?hit \<and> i = 0 then g_i[?idx := g_i ! ?idx + ?cg] else g_i"
    let ?G1 = "if ?hit then G_i[?idx := G_i ! ?idx + ?cG] else G_i"
    have g1: "?g1 = (if i = 0 then add_at g_i ?idx (if ?hit then ?cg else 0) else g_i)"
      by (simp add: add_at_def)
    have G1: "?G1 = add_at G_i ?idx (if ?hit then ?cG else 0)"
      by (simp add: add_at_def)
    show ?thesis
    proof (cases "p + 1 > n_total_jumps m")
      case last: True
      have "scan m i j u k t_k decay lag p g_i G_i = Inr (p + 1, ?g1, ?G1)"
        using inb True last by (subst scan.simps) (simp add: Let_def)
      moreover have "[p..<p + 1] = [p]" by (simp add: upt_Suc)
      moreover have "\<forall>e. p \<le> e \<and> e < p + 1 \<longrightarrow> global_timestamps m ! e < t_k - lag"
      proof (intro allI impI)
        fix e assume "p \<le> e \<and> e < p + 1"
        then have "e = p" by simp
        then show "global_timestamps m ! e < t_k - lag" using True by simp
      qed
      ultimately show ?thesis
        using last Suc.prems unfolding g1 G1
        by (intro exI [of _ "p + 1"]) (simp add: contrib_Cons contrib_Nil)
    next
      case more: False
      have rec: "scan m i j u k t_k decay lag p g_i G_i
          = scan m i j u k t_k decay lag (p + 1) ?g1 ?G1"
        using inb True more by (subst scan.simps) (simp add: Let_def)
      have d: "d = n_total_jumps m + 1 - (p + 1)" using Suc.hyps(2) by simp
      have p1: "1 \<le> p + 1" "p + 1 \<le> n_total_jumps m" using more by simp_all
      obtain q where q: "scan m i j u k t_k decay lag (p + 1) ?g1 ?G1 =
           Inr (q,
                if i = 0 then add_at ?g1 ?idx (g_contrib m j decay lag t_k [p + 1..<q])
                else ?g1,
                add_at ?G1 ?idx (G_contrib m j decay lag t_k [p + 1..<q]))"
        and qb: "p + 1 \<le> q" "q \<le> n_total_jumps m + 1"
        and qe: "\<forall>e. p + 1 \<le> e \<and> e < q \<longrightarrow> global_timestamps m ! e < t_k - lag"
        and qs: "q \<le> n_total_jumps m \<longrightarrow> \<not> global_timestamps m ! q < t_k - lag"
        using Suc.hyps(1) [OF d p1, of ?g1 ?G1] by blast
      have split: "[p..<q] = p # [p + 1..<q]" using qb by (simp add: upt_conv_Cons)
      have elig: "\<forall>e. p \<le> e \<and> e < q \<longrightarrow> global_timestamps m ! e < t_k - lag"
      proof (intro allI impI)
        fix e assume "p \<le> e \<and> e < q"
        then show "global_timestamps m ! e < t_k - lag"
          using True qe by (cases "e = p") auto
      qed
      have gg: "(if i = 0 then add_at ?g1 ?idx A else ?g1)
          = (if i = 0 then add_at g_i ?idx ((if ?hit then ?cg else 0) + A) else g_i)" for A
        unfolding g1 by (simp add: add_at_add)
      have GG: "add_at ?G1 ?idx A = add_at G_i ?idx ((if ?hit then ?cG else 0) + A)" for A
        unfolding G1 by (simp add: add_at_add)
      have "scan m i j u k t_k decay lag p g_i G_i =
           Inr (q,
                if i = 0 then add_at g_i ?idx (g_contrib m j decay lag t_k [p..<q])
                else g_i,
                add_at G_i ?idx (G_contrib m j decay lag t_k [p..<q]))"
        by (simp only: rec q gg GG split contrib_Cons)
      then show ?thesis using qb qs elig by (intro exI [of _ q]) simp
    qed
  qed
qed

lemma add_at_update: "add_at (xs[n := a]) n c = xs[n := a + c]"
proof (cases "n < length xs")
  case True
  then show ?thesis by (simp add: add_at_def)
next
  case False
  then show ?thesis by (simp add: add_at_def list_update_beyond not_less)
qed

lemma get_index_bound:
  assumes "k \<le> n_total_jumps m + 1" and "j < n_nodes m" and "u < length (decays m)"
  shows "get_index m k j u < (n_total_jumps m + 2) * (n_nodes m * length (decays m))"
proof -
  let ?U = "length (decays m)" and ?D = "n_nodes m"
  have "?U * j + u < ?U * (j + 1)" using assms(3) by simp
  also have "\<dots> \<le> ?U * ?D" using assms(2) by (intro mult_le_mono2) simp
  finally have r: "?U * j + u < ?D * ?U" by (simp add: mult.commute)
  have "get_index m k j u = ?D * ?U * k + (?U * j + u)"
    by (simp add: get_index_def get_n_decays_def)
  also have "\<dots> < ?D * ?U * k + ?D * ?U" using r by simp
  also have "\<dots> = ?D * ?U * (k + 1)" by simp
  also have "\<dots> \<le> ?D * ?U * (n_total_jumps m + 2)"
    using assms(1) by (intro mult_le_mono2) simp
  finally show ?thesis by (simp add: mult.commute)
qed

lemma get_index_inj:
  assumes "j < n_nodes m" "u < length (decays m)" "j' < n_nodes m" "u' < length (decays m)"
    and "get_index m k j u = get_index m k' j' u'"
  shows "k = k' \<and> j = j' \<and> u = u'"
proof -
  let ?U = "length (decays m)" and ?D = "n_nodes m"
  have r: "?U * j + u < ?D * ?U" "?U * j' + u' < ?D * ?U"
  proof -
    have "?U * j + u < ?U * (j + 1)" using assms(2) by simp
    also have "\<dots> \<le> ?U * ?D" using assms(1) by (intro mult_le_mono2) simp
    finally show "?U * j + u < ?D * ?U" by (simp add: mult.commute)
    have "?U * j' + u' < ?U * (j' + 1)" using assms(4) by simp
    also have "\<dots> \<le> ?U * ?D" using assms(3) by (intro mult_le_mono2) simp
    finally show "?U * j' + u' < ?D * ?U" by (simp add: mult.commute)
  qed
  have e: "k * (?D * ?U) + (?U * j + u) = k' * (?D * ?U) + (?U * j' + u')"
    using assms(5) by (simp add: get_index_def get_n_decays_def algebra_simps)
  have "(k * (?D * ?U) + (?U * j + u)) div (?D * ?U) = k"
    using r(1) by (rule div_cell)
  moreover have "(k' * (?D * ?U) + (?U * j' + u')) div (?D * ?U) = k'"
    using r(2) by (rule div_cell)
  ultimately have k: "k = k'" using e by simp
  then have e2: "j * ?U + u = j' * ?U + u'" using e by (simp add: mult.commute)
  have "(j * ?U + u) div ?U = j" using assms(2) by (rule div_cell)
  moreover have "(j' * ?U + u') div ?U = j'" using assms(4) by (rule div_cell)
  ultimately have j: "j = j'" using e2 by simp
  then have "u = u'" using e2 by simp
  then show ?thesis using k j by simp
qed

lemma g_contrib_append:
  "g_contrib m j decay lag t (es @ es') = g_contrib m j decay lag t es + g_contrib m j decay lag t es'"
  by (simp add: g_contrib_def)

lemma g_contrib_shift:
  "g_contrib m j decay lag t es * exp (- decay * (t' - t)) = g_contrib m j decay lag t' es"
proof -
  have "decay * exp (- decay * (t - lag - x)) * exp (- decay * (t' - t))
      = decay * exp (- decay * (t' - lag - x))" for x
  proof -
    have "exp (- decay * (t - lag - x)) * exp (- decay * (t' - t))
        = exp (- decay * (t - lag - x) + - decay * (t' - t))"
      by (simp only: exp_add)
    also have "- decay * (t - lag - x) + - decay * (t' - t) = - decay * (t' - lag - x)"
      by (simp add: algebra_simps)
    finally show ?thesis by simp
  qed
  note el = this
  show ?thesis
  proof (induction es)
    case Nil
    then show ?case by (simp add: contrib_Nil)
  next
    case (Cons e es)
    show ?case
      unfolding contrib_Cons distrib_right Cons.IH
      by (cases "type_n m ! e = j + 1")
         (simp_all only: el refl if_True if_False mult_zero_left)
  qed
qed

lemma weights_step_result:
  assumes "length (global_timestamps m) = n_total_jumps m + 1"
    and "length (type_n m) = n_total_jumps m + 1"
    and "1 \<le> p" and "p \<le> n_total_jumps m"
  shows "\<exists>q. weights_step m i j u decay lag k (p, g_i, G_i) =
           Inr (q,
                if i = 0
                then g_i[get_index m k j u :=
                       g_i ! get_index m (k - 1) j u
                         * exp (- decay * (t_at m k - global_timestamps m ! (k - 1)))
                       + g_contrib m j decay lag (t_at m k) [p..<q]]
                else g_i,
                G_i[get_index m k j u :=
                       (1 - exp (- decay * (t_at m k - global_timestamps m ! (k - 1)))) / decay
                         * g_i ! get_index m (k - 1) j u
                       + G_contrib m j decay lag (t_at m k) [p..<q]])
         \<and> p \<le> q \<and> q \<le> n_total_jumps m + 1
         \<and> (\<forall>e. p \<le> e \<and> e < q \<longrightarrow> global_timestamps m ! e < t_at m k - lag)
         \<and> (q \<le> n_total_jumps m \<longrightarrow> \<not> global_timestamps m ! q < t_at m k - lag)"
proof -
  have t: "(if k \<noteq> 1 + n_total_jumps m then global_timestamps m ! k else end_time m) = t_at m k"
    by (simp add: t_at_def)
  let ?ebt = "exp (- decay * (t_at m k - global_timestamps m ! (k - 1)))"
  let ?G1 = "G_i[get_index m k j u := (1 - ?ebt) / decay * g_i ! get_index m (k - 1) j u]"
  let ?g1 = "if i = 0 then g_i[get_index m k j u := g_i ! get_index m (k - 1) j u * ?ebt] else g_i"
  have w: "weights_step m i j u decay lag k (p, g_i, G_i)
      = scan m i j u k (t_at m k) decay lag p ?g1 ?G1"
    unfolding weights_step_def Let_def t by simp
  obtain q where q: "scan m i j u k (t_at m k) decay lag p ?g1 ?G1 =
           Inr (q,
                if i = 0 then add_at ?g1 (get_index m k j u)
                                (g_contrib m j decay lag (t_at m k) [p..<q])
                else ?g1,
                add_at ?G1 (get_index m k j u) (G_contrib m j decay lag (t_at m k) [p..<q]))"
    and rest: "p \<le> q" "q \<le> n_total_jumps m + 1"
      "\<forall>e. p \<le> e \<and> e < q \<longrightarrow> global_timestamps m ! e < t_at m k - lag"
      "q \<le> n_total_jumps m \<longrightarrow> \<not> global_timestamps m ! q < t_at m k - lag"
    using scan_result [OF assms, of i j u k "t_at m k" decay lag ?g1 ?G1] by blast
  have "weights_step m i j u decay lag k (p, g_i, G_i) =
           Inr (q,
                if i = 0
                then g_i[get_index m k j u :=
                       g_i ! get_index m (k - 1) j u * ?ebt
                       + g_contrib m j decay lag (t_at m k) [p..<q]]
                else g_i,
                G_i[get_index m k j u :=
                       (1 - ?ebt) / decay * g_i ! get_index m (k - 1) j u
                       + G_contrib m j decay lag (t_at m k) [p..<q]])"
    unfolding w q by (simp add: add_at_update)
  then show ?thesis using rest by blast
qed

lemma upt_split:
  assumes "a \<le> b" and "b \<le> c"
  shows "[a..<c] = [a..<b] @ [b..<c]"
  using upt_add_eq_append [OF assms(1), of "c - b"] assms(2) by simp

lemma contrib_is_direct:
  assumes ok: "timeline_ok m" and q: "1 \<le> q" "q \<le> n_total_jumps m"
    and before: "\<forall>e. 1 \<le> e \<and> e < q \<longrightarrow> global_timestamps m ! e < global_timestamps m ! k - lag"
    and stop: "\<not> global_timestamps m ! q < global_timestamps m ! k - lag"
  shows "g_contrib m j decay lag (global_timestamps m ! k) [1..<q] = g_direct m j decay lag k"
proof -
  let ?P = "\<lambda>e. type_n m ! e = j + 1
                     \<and> global_timestamps m ! e < global_timestamps m ! k - lag"
  have split: "[1..<n_total_jumps m + 1] = [1..<q] @ [q..<n_total_jumps m + 1]"
    using q by (intro upt_split) simp_all
  have first: "filter ?P [1..<q] = filter (\<lambda>e. type_n m ! e = j + 1) [1..<q]"
    by (rule filter_cong) (use before in auto)
  have second: "filter ?P [q..<n_total_jumps m + 1] = []"
  proof -
    have "\<not> global_timestamps m ! e < global_timestamps m ! k - lag"
      if "e \<in> set [q..<n_total_jumps m + 1]" for e
    proof -
      have "q \<le> e" "e < length (global_timestamps m)"
        using that ok by (simp_all add: timeline_ok_def)
      then have "global_timestamps m ! q \<le> global_timestamps m ! e"
        using ok by (simp add: timeline_ok_def sorted_nth_mono)
      then show ?thesis using stop by simp
    qed
    then show ?thesis by (simp add: filter_empty_conv)
  qed
  show ?thesis
    unfolding g_direct_def g_contrib_def split filter_append first second by simp
qed

lemma pass_prefix:
  assumes ok: "timeline_ok m" and lag: "0 \<le> lag"
    and j: "j < n_nodes m" and u: "u < length (decays m)"
    and len: "length g0 = (n_total_jumps m + 2) * (n_nodes m * length (decays m))"
    and z: "g0 ! get_index m 0 j u = 0"
  shows "k \<le> n_total_jumps m \<Longrightarrow>
     \<exists>p g' G'. foldE (weights_step m i j u decay lag) [1..<k + 1] (1, g0, G0) = Inr (p, g', G')
       \<and> 1 \<le> p \<and> p \<le> max 1 k
       \<and> (1 \<le> k \<longrightarrow>
            (\<forall>e. 1 \<le> e \<and> e < p \<longrightarrow> global_timestamps m ! e < global_timestamps m ! k - lag)
            \<and> \<not> global_timestamps m ! p < global_timestamps m ! k - lag)
       \<and> length g' = length g0
       \<and> (i \<noteq> 0 \<longrightarrow> g' = g0)
       \<and> (i = 0 \<longrightarrow>
            g' ! get_index m k j u = g_contrib m j decay lag (global_timestamps m ! k) [1..<p]
            \<and> (\<forall>k'. 1 \<le> k' \<and> k' \<le> k \<longrightarrow> g' ! get_index m k' j u = g_direct m j decay lag k')
            \<and> (\<forall>c. (\<forall>k'. 1 \<le> k' \<and> k' \<le> k \<longrightarrow> c \<noteq> get_index m k' j u) \<longrightarrow> g' ! c = g0 ! c))"
proof (induction k)
  case 0
  have "foldE (weights_step m i j u decay lag) [1..<0 + 1] (1, g0, G0) = Inr (1, g0, G0)"
    by simp
  then show ?case using z by (simp add: contrib_Nil)
next
  case (Suc k)
  let ?ts = "global_timestamps m"
  let ?M = "n_total_jumps m"
  have kM: "k \<le> ?M" "k + 1 \<le> ?M" using Suc.prems by simp_all
  have lens: "length ?ts = ?M + 1" "length (type_n m) = ?M + 1" and srt: "sorted ?ts"
    and M1: "1 \<le> ?M"
    using ok by (simp_all add: timeline_ok_def)
  obtain p g' G' where run: "foldE (weights_step m i j u decay lag) [1..<k + 1] (1, g0, G0)
        = Inr (p, g', G')"
    and p: "1 \<le> p" "p \<le> max 1 k"
    and el: "1 \<le> k \<longrightarrow>
            (\<forall>e. 1 \<le> e \<and> e < p \<longrightarrow> ?ts ! e < ?ts ! k - lag) \<and> \<not> ?ts ! p < ?ts ! k - lag"
    and lg: "length g' = length g0"
    and other: "i \<noteq> 0 \<longrightarrow> g' = g0"
    and cur: "i = 0 \<longrightarrow> g' ! get_index m k j u = g_contrib m j decay lag (?ts ! k) [1..<p]"
    and dn: "i = 0 \<longrightarrow> (\<forall>k'. 1 \<le> k' \<and> k' \<le> k \<longrightarrow>
                 g' ! get_index m k' j u = g_direct m j decay lag k')"
    and frame: "i = 0 \<longrightarrow> (\<forall>c. (\<forall>k'. 1 \<le> k' \<and> k' \<le> k \<longrightarrow> c \<noteq> get_index m k' j u)
                 \<longrightarrow> g' ! c = g0 ! c)"
    using Suc.IH [OF kM(1)] by blast
  have pM: "p \<le> ?M" using p kM M1 by simp
  have tk: "t_at m (k + 1) = ?ts ! (k + 1)" using kM by (simp add: t_at_def)
  let ?ebt = "exp (- decay * (?ts ! (k + 1) - ?ts ! k))"
  obtain q where step: "weights_step m i j u decay lag (k + 1) (p, g', G') =
           Inr (q,
                if i = 0
                then g'[get_index m (k + 1) j u :=
                       g' ! get_index m k j u * ?ebt
                       + g_contrib m j decay lag (?ts ! (k + 1)) [p..<q]]
                else g',
                G'[get_index m (k + 1) j u :=
                       (1 - ?ebt) / decay * g' ! get_index m k j u
                       + G_contrib m j decay lag (?ts ! (k + 1)) [p..<q]])"
    and q: "p \<le> q" "q \<le> ?M + 1"
    and qe: "\<forall>e. p \<le> e \<and> e < q \<longrightarrow> ?ts ! e < ?ts ! (k + 1) - lag"
    and qs: "q \<le> ?M \<longrightarrow> \<not> ?ts ! q < ?ts ! (k + 1) - lag"
    using weights_step_result [OF lens p(1) pM, of i j u decay lag "k + 1" g' G']
    unfolding tk by auto
  let ?g'' = "if i = 0
                then g'[get_index m (k + 1) j u :=
                       g' ! get_index m k j u * ?ebt
                       + g_contrib m j decay lag (?ts ! (k + 1)) [p..<q]]
                else g'"
  let ?G'' = "G'[get_index m (k + 1) j u :=
                       (1 - ?ebt) / decay * g' ! get_index m k j u
                       + G_contrib m j decay lag (?ts ! (k + 1)) [p..<q]]"
  have range: "[1..<Suc k + 1] = [1..<k + 1] @ [k + 1]" by (simp add: upt_Suc)
  have total: "foldE (weights_step m i j u decay lag) [1..<Suc k + 1] (1, g0, G0)
      = Inr (q, ?g'', ?G'')"
    unfolding range foldE_append run using step by simp
  have qk: "q \<le> k + 1"
  proof (rule ccontr)
    assume "\<not> q \<le> k + 1"
    then have "p \<le> k + 1 \<and> k + 1 < q" using p by simp
    then have "?ts ! (k + 1) < ?ts ! (k + 1) - lag" using qe by blast
    then show False using lag by simp
  qed
  have q1: "1 \<le> q" using p q by simp
  have qM: "q \<le> ?M" using qk kM by simp
  have mono: "?ts ! k \<le> ?ts ! (k + 1)"
    using srt lens kM by (simp add: sorted_nth_mono)
  have before: "\<forall>e. 1 \<le> e \<and> e < q \<longrightarrow> ?ts ! e < ?ts ! (k + 1) - lag"
  proof (intro allI impI)
    fix e assume e: "1 \<le> e \<and> e < q"
    show "?ts ! e < ?ts ! (k + 1) - lag"
    proof (cases "e < p")
      case True
      then have "1 \<le> k" using p e by (cases k) simp_all
      then have "?ts ! e < ?ts ! k - lag" using el e True by simp
      then show ?thesis using mono by simp
    next
      case False
      then show ?thesis using qe e by simp
    qed
  qed
  have stop: "\<not> ?ts ! q < ?ts ! (k + 1) - lag" using qs qM by simp
  have lg'': "length ?g'' = length g0" using lg by simp
  have ib: "get_index m (k + 1) j u < length g'"
    using get_index_bound [of "k + 1" m j u] kM j u lg len by simp
  have newcell: "?g'' ! get_index m (k + 1) j u
      = g_contrib m j decay lag (?ts ! (k + 1)) [1..<q]" if i0: "i = 0"
  proof -
    have "[1..<q] = [1..<p] @ [p..<q]" using p q by (intro upt_split) simp_all
    then have "g_contrib m j decay lag (?ts ! (k + 1)) [1..<q]
        = g_contrib m j decay lag (?ts ! (k + 1)) [1..<p]
          + g_contrib m j decay lag (?ts ! (k + 1)) [p..<q]"
      by (simp add: g_contrib_append)
    moreover have "g' ! get_index m k j u * ?ebt
        = g_contrib m j decay lag (?ts ! (k + 1)) [1..<p]"
      using cur i0
        g_contrib_shift [of m j decay lag "?ts ! k" "[1..<p]" "?ts ! (k + 1)"] by simp
    ultimately show ?thesis using i0 ib by simp
  qed
  have olddone: "?g'' ! get_index m k' j u = g_direct m j decay lag k'"
    if i0: "i = 0" and k': "1 \<le> k'" "k' \<le> k" for k'
  proof -
    have "get_index m k' j u \<noteq> get_index m (k + 1) j u"
      using get_index_inj [OF j u j u, of k' "k + 1"] k' by auto
    then have "?g'' ! get_index m k' j u = g' ! get_index m k' j u" using i0 by simp
    then show ?thesis using dn i0 k' by simp
  qed
  have newdone: "?g'' ! get_index m (k + 1) j u = g_direct m j decay lag (k + 1)" if i0: "i = 0"
    using newcell [OF i0] contrib_is_direct [OF ok q1 qM before stop] by simp
  have alldone: "\<forall>k'. 1 \<le> k' \<and> k' \<le> Suc k \<longrightarrow>
      ?g'' ! get_index m k' j u = g_direct m j decay lag k'" if i0: "i = 0"
  proof (intro allI impI)
    fix k' assume a: "1 \<le> k' \<and> k' \<le> Suc k"
    show "?g'' ! get_index m k' j u = g_direct m j decay lag k'"
    proof (cases "k' = k + 1")
      case True
      then show ?thesis using newdone [OF i0] by simp
    next
      case False
      then have "1 \<le> k'" "k' \<le> k" using a by simp_all
      then show ?thesis using olddone [OF i0] by simp
    qed
  qed
  have frame': "\<forall>c. (\<forall>k'. 1 \<le> k' \<and> k' \<le> Suc k \<longrightarrow> c \<noteq> get_index m k' j u)
      \<longrightarrow> ?g'' ! c = g0 ! c" if i0: "i = 0"
  proof (intro allI impI)
    fix c assume c: "\<forall>k'. 1 \<le> k' \<and> k' \<le> Suc k \<longrightarrow> c \<noteq> get_index m k' j u"
    then have "c \<noteq> get_index m (k + 1) j u" by simp
    then have "?g'' ! c = g' ! c" by simp
    moreover have "\<forall>k'. 1 \<le> k' \<and> k' \<le> k \<longrightarrow> c \<noteq> get_index m k' j u" using c by simp
    ultimately show "?g'' ! c = g0 ! c" using frame i0 by simp
  qed
  have pmax: "q \<le> max 1 (Suc k)" using qk by simp
  show ?case
    apply (rule exI [of _ q], rule exI [of _ ?g''], rule exI [of _ ?G''])
    using total q1 pmax before stop lg'' other newcell alldone frame'
    by simp
qed

lemma weights_pass_result:
  assumes ok: "timeline_ok m" and lag: "0 \<le> lag"
    and j: "j < n_nodes m" and u: "u < length (decays m)"
    and len: "length g0 = (n_total_jumps m + 2) * (n_nodes m * length (decays m))"
    and z: "g0 ! get_index m 0 j u = 0"
  shows "\<exists>g' G'. weights_pass m i u decay lag j (g0, G0) = Inr (g', G')
       \<and> length g' = length g0
       \<and> (i \<noteq> 0 \<longrightarrow> g' = g0)
       \<and> (i = 0 \<longrightarrow>
            (\<forall>k. 1 \<le> k \<and> k \<le> n_total_jumps m \<longrightarrow>
                 g' ! get_index m k j u = g_direct m j decay lag k)
            \<and> (\<forall>c. (\<forall>k. 1 \<le> k \<and> k \<le> n_total_jumps m + 1 \<longrightarrow> c \<noteq> get_index m k j u)
                 \<longrightarrow> g' ! c = g0 ! c))"
proof -
  let ?M = "n_total_jumps m"
  have lens: "length (global_timestamps m) = ?M + 1" "length (type_n m) = ?M + 1"
    and M1: "1 \<le> ?M"
    using ok by (simp_all add: timeline_ok_def)
  obtain p g' G' where run: "foldE (weights_step m i j u decay lag) [1..<?M + 1] (1, g0, G0)
        = Inr (p, g', G')"
    and p: "1 \<le> p" "p \<le> max 1 ?M"
    and lg: "length g' = length g0"
    and other: "i \<noteq> 0 \<longrightarrow> g' = g0"
    and dn: "i = 0 \<longrightarrow> (\<forall>k'. 1 \<le> k' \<and> k' \<le> ?M \<longrightarrow>
                 g' ! get_index m k' j u = g_direct m j decay lag k')"
    and frame: "i = 0 \<longrightarrow> (\<forall>c. (\<forall>k'. 1 \<le> k' \<and> k' \<le> ?M \<longrightarrow> c \<noteq> get_index m k' j u)
                 \<longrightarrow> g' ! c = g0 ! c)"
    using pass_prefix [OF ok lag j u len z order_refl, of i decay G0] by blast
  have pM: "p \<le> ?M" using p M1 by simp
  obtain q g'' G'' where step: "weights_step m i j u decay lag (?M + 1) (p, g', G')
        = Inr (q, g'', G'')"
    and g'': "g'' = (if i = 0 then g'[get_index m (?M + 1) j u :=
                       g' ! get_index m (?M + 1 - 1) j u
                         * exp (- decay * (t_at m (?M + 1) - global_timestamps m ! (?M + 1 - 1)))
                       + g_contrib m j decay lag (t_at m (?M + 1)) [p..<q]]
                else g')"
    using weights_step_result [OF lens p(1) pM, of i j u decay lag "?M + 1" g' G'] by blast
  have range: "[1..<1 + ?M + 1] = [1..<?M + 1] @ [?M + 1]" by (simp add: upt_Suc)
  have res: "weights_pass m i u decay lag j (g0, G0) = Inr (g'', G'')"
    unfolding weights_pass_def range foldE_append using run step by simp
  have l: "length g'' = length g0" using lg g'' by simp
  have o: "i \<noteq> 0 \<longrightarrow> g'' = g0" using other g'' by simp
  have d: "\<forall>k. 1 \<le> k \<and> k \<le> ?M \<longrightarrow> g'' ! get_index m k j u = g_direct m j decay lag k"
    if i0: "i = 0"
  proof (intro allI impI)
    fix k assume k: "1 \<le> k \<and> k \<le> ?M"
    have "get_index m k j u \<noteq> get_index m (?M + 1) j u"
      using get_index_inj [OF j u j u, of k "?M + 1"] k by auto
    then have "g'' ! get_index m k j u = g' ! get_index m k j u" using g'' i0 by simp
    then show "g'' ! get_index m k j u = g_direct m j decay lag k" using dn i0 k by simp
  qed
  have f: "\<forall>c. (\<forall>k. 1 \<le> k \<and> k \<le> ?M + 1 \<longrightarrow> c \<noteq> get_index m k j u) \<longrightarrow> g'' ! c = g0 ! c"
    if i0: "i = 0"
  proof (intro allI impI)
    fix c assume c: "\<forall>k. 1 \<le> k \<and> k \<le> ?M + 1 \<longrightarrow> c \<noteq> get_index m k j u"
    then have "c \<noteq> get_index m (?M + 1) j u" by simp
    then have "g'' ! c = g' ! c" using g'' i0 by simp
    moreover have "\<forall>k'. 1 \<le> k' \<and> k' \<le> ?M \<longrightarrow> c \<noteq> get_index m k' j u" using c by simp
    ultimately show "g'' ! c = g0 ! c" using frame i0 by simp
  qed
  show ?thesis
    using res l o d f by blast
qed

lemma weights_pass_g_ok:
  assumes ok: "timeline_ok m" and lag: "0 \<le> lags m ! u"
    and j: "j < n_nodes m" and u: "u < length (decays m)"
    and g0: "g_ok m filled g0"
  shows "\<exists>g' G'. weights_pass m i u (decays m ! u) (lags m ! u) j (g0, G0) = Inr (g', G')
       \<and> (i \<noteq> 0 \<longrightarrow> g' = g0)
       \<and> g_ok m (if i = 0 then insert (j, u) filled else filled) g'"
proof -
  let ?M = "n_total_jumps m"
  have len: "length g0 = (?M + 2) * (n_nodes m * length (decays m))"
    and z: "g0 ! get_index m 0 j u = 0"
    using g0 j u by (simp_all add: g_ok_def)
  obtain g' G' where res: "weights_pass m i u (decays m ! u) (lags m ! u) j (g0, G0) = Inr (g', G')"
    and l: "length g' = length g0"
    and o: "i \<noteq> 0 \<longrightarrow> g' = g0"
    and d: "i = 0 \<longrightarrow> (\<forall>k. 1 \<le> k \<and> k \<le> ?M \<longrightarrow>
                 g' ! get_index m k j u = g_direct m j (decays m ! u) (lags m ! u) k)"
    and f: "i = 0 \<longrightarrow> (\<forall>c. (\<forall>k. 1 \<le> k \<and> k \<le> ?M + 1 \<longrightarrow> c \<noteq> get_index m k j u)
                 \<longrightarrow> g' ! c = g0 ! c)"
    using weights_pass_result [OF ok lag j u len z, of i "decays m ! u" G0] by blast
  have "g_ok m (insert (j, u) filled) g'" if i0: "i = 0"
    unfolding g_ok_def
  proof (intro conjI allI impI)
    show "length g' = (?M + 2) * (n_nodes m * length (decays m))" using l len by simp
  next
    fix j' u' assume a: "j' < n_nodes m \<and> u' < length (decays m)"
    have "\<forall>k. 1 \<le> k \<and> k \<le> ?M + 1 \<longrightarrow> get_index m 0 j' u' \<noteq> get_index m k j u"
      using get_index_inj [of j' m u' j u 0] a j u by auto
    then have "g' ! get_index m 0 j' u' = g0 ! get_index m 0 j' u'" using f i0 by simp
    then show "g' ! get_index m 0 j' u' = 0" using g0 a by (simp add: g_ok_def)
  next
    fix j' u' k
    assume a: "(j', u') \<in> insert (j, u) filled \<and> j' < n_nodes m \<and> u' < length (decays m)
        \<and> 1 \<le> k \<and> k \<le> ?M"
    show "g' ! get_index m k j' u' = g_direct m j' (decays m ! u') (lags m ! u') k"
    proof (cases "(j', u') = (j, u)")
      case True
      then show ?thesis using d i0 a by simp
    next
      case False
      then have "(j', u') \<in> filled" using a by auto
      moreover have "\<forall>k'. 1 \<le> k' \<and> k' \<le> ?M + 1 \<longrightarrow> get_index m k j' u' \<noteq> get_index m k' j u"
        using get_index_inj [of j' m u' j u k] a j u False by auto
      then have "g' ! get_index m k j' u' = g0 ! get_index m k j' u'" using f i0 by simp
      ultimately show ?thesis using g0 a by (simp add: g_ok_def)
    qed
  qed
  then have "g_ok m (if i = 0 then insert (j, u) filled else filled) g'"
    using o g0 by auto
  then show ?thesis using res o by blast
qed

lemma weights_inner_g_ok:
  assumes ok: "timeline_ok m" and lag: "0 \<le> lags m ! u" and u: "u < length (decays m)"
  shows "\<forall>j\<in>set js. j < n_nodes m \<Longrightarrow> g_ok m filled g0 \<Longrightarrow>
     \<exists>g' G'. foldE (weights_pass m i u (decays m ! u) (lags m ! u)) js (g0, G0) = Inr (g', G')
       \<and> (i \<noteq> 0 \<longrightarrow> g' = g0)
       \<and> g_ok m (if i = 0 then filled \<union> (\<lambda>j. (j, u)) ` set js else filled) g'"
proof (induction js arbitrary: g0 G0 filled)
  case Nil
  then show ?case by simp
next
  case (Cons j js)
  have j: "j < n_nodes m" using Cons.prems(1) by simp
  obtain g1 G1 where one: "weights_pass m i u (decays m ! u) (lags m ! u) j (g0, G0) = Inr (g1, G1)"
    and o1: "i \<noteq> 0 \<longrightarrow> g1 = g0"
    and k1: "g_ok m (if i = 0 then insert (j, u) filled else filled) g1"
    using weights_pass_g_ok [OF ok lag j u Cons.prems(2), of i G0] by blast
  have js: "\<forall>j\<in>set js. j < n_nodes m" using Cons.prems(1) by simp
  obtain g' G' where rest: "foldE (weights_pass m i u (decays m ! u) (lags m ! u)) js (g1, G1)
        = Inr (g', G')"
    and o: "i \<noteq> 0 \<longrightarrow> g' = g1"
    and k: "g_ok m (if i = 0 then (if i = 0 then insert (j, u) filled else filled)
                                  \<union> (\<lambda>j. (j, u)) ` set js
                    else (if i = 0 then insert (j, u) filled else filled)) g'"
    using Cons.IH [OF js k1, of G1] by blast
  have "foldE (weights_pass m i u (decays m ! u) (lags m ! u)) (j # js) (g0, G0) = Inr (g', G')"
    using one rest by simp
  moreover have "g_ok m (if i = 0 then filled \<union> (\<lambda>j. (j, u)) ` set (j # js) else filled) g'"
    using k by (cases "i = 0") simp_all
  ultimately show ?case using o o1 by blast
qed

lemma weights_gG_g_ok:
  assumes ok: "timeline_ok m"
  shows "\<forall>u\<in>set us. u < length (decays m) \<and> 0 \<le> lags m ! u \<Longrightarrow> g_ok m filled g0 \<Longrightarrow>
     \<exists>g' G'. foldE (\<lambda>u. foldE (weights_pass m i u (decays m ! u) (lags m ! u)) [0..<n_nodes m])
                us (g0, G0) = Inr (g', G')
       \<and> (i \<noteq> 0 \<longrightarrow> g' = g0)
       \<and> g_ok m (if i = 0 then filled \<union> {..<n_nodes m} \<times> set us else filled) g'"
proof (induction us arbitrary: g0 G0 filled)
  case Nil
  then show ?case by simp
next
  case (Cons u us)
  have u: "u < length (decays m)" "0 \<le> lags m ! u" using Cons.prems(1) by simp_all
  have js: "\<forall>j\<in>set [0..<n_nodes m]. j < n_nodes m" by simp
  obtain g1 G1 where one:
      "foldE (weights_pass m i u (decays m ! u) (lags m ! u)) [0..<n_nodes m] (g0, G0) = Inr (g1, G1)"
    and o1: "i \<noteq> 0 \<longrightarrow> g1 = g0"
    and k1: "g_ok m (if i = 0 then filled \<union> (\<lambda>j. (j, u)) ` set [0..<n_nodes m] else filled) g1"
    using weights_inner_g_ok [OF ok u(2) u(1) js Cons.prems(2), of i G0] by blast
  have us: "\<forall>u\<in>set us. u < length (decays m) \<and> 0 \<le> lags m ! u" using Cons.prems(1) by simp
  obtain g' G' where rest:
      "foldE (\<lambda>u. foldE (weights_pass m i u (decays m ! u) (lags m ! u)) [0..<n_nodes m])
                us (g1, G1) = Inr (g', G')"
    and o: "i \<noteq> 0 \<longrightarrow> g' = g1"
    and k: "g_ok m (if i = 0
                    then (if i = 0 then filled \<union> (\<lambda>j. (j, u)) ` set [0..<n_nodes m] else filled)
                         \<union> {..<n_nodes m} \<times> set us
                    else (if i = 0 then filled \<union> (\<lambda>j. (j, u)) ` set [0..<n_nodes m]
                          else filled)) g'"
    using Cons.IH [OF us k1, of G1] by blast
  have "foldE (\<lambda>u. foldE (weights_pass m i u (decays m ! u) (lags m ! u)) [0..<n_nodes m])
                (u # us) (g0, G0) = Inr (g', G')"
    using one rest by simp
  moreover have "filled \<union> (\<lambda>j. (j, u)) ` set [0..<n_nodes m] \<union> {..<n_nodes m} \<times> set us
      = filled \<union> {..<n_nodes m} \<times> set (u # us)"
    by auto
  then have "g_ok m (if i = 0 then filled \<union> {..<n_nodes m} \<times> set (u # us) else filled) g'"
    using k by (cases "i = 0") simp_all
  ultimately show ?case using o o1 by blast
qed

lemma same_data_ok:
  assumes "same_data m m'"
  shows "timeline_ok m' = timeline_ok m" "kernels_ok m' = kernels_ok m"
    "g_ok m' = g_ok m" "g_direct m' = g_direct m"
proof -
  note f = same_data_fields [OF assms]
  note d = same_data_derived [OF assms]
  show "timeline_ok m' = timeline_ok m" by (simp add: timeline_ok_def f)
  show "kernels_ok m' = kernels_ok m" by (simp add: kernels_ok_def f)
  show gd: "g_direct m' = g_direct m" by (simp add: fun_eq_iff g_direct_def f)
  show "g_ok m' = g_ok m" by (simp add: fun_eq_iff g_ok_def f d gd)
qed

lemma compute_weights_dim_i_g:
  assumes ok: "timeline_ok m" and ker: "kernels_ok m" and g0: "g_ok m filled (g m ! 0)"
    and lg: "0 < length (g m)"
  shows "\<exists>m'. compute_weights_dim_i i m = Inr m' \<and> length (g m') = length (g m)
     \<and> g_ok m (if i = 0 then filled \<union> {..<n_nodes m} \<times> {..<length (decays m)} else filled)
          (g m' ! 0)"
proof -
  have us: "\<forall>u\<in>set [0..<length (decays m)]. u < length (decays m) \<and> 0 \<le> lags m ! u"
    using ker by (simp add: kernels_ok_def list_all_length)
  obtain g' G' where w: "weights_gG m i (g m ! 0, G m ! i) = Inr (g', G')"
    and o: "i \<noteq> 0 \<longrightarrow> g' = g m ! 0"
    and k: "g_ok m (if i = 0 then filled \<union> {..<n_nodes m} \<times> set [0..<length (decays m)]
                    else filled) g'"
    using weights_gG_g_ok [OF ok us g0, of i "G m ! i"] unfolding weights_gG_def by blast
  obtain m' where m': "compute_weights_dim_i i m = Inr m'" and gm': "g m' = (g m)[0 := g']"
    unfolding compute_weights_dim_i_def w by (simp add: Let_def)
  have z: "g m' ! 0 = g'" using gm' lg by simp
  have s: "set [0..<length (decays m)] = {..<length (decays m)}" by auto
  have k': "g_ok m (if i = 0 then filled \<union> {..<n_nodes m} \<times> {..<length (decays m)}
                    else filled) (g m' ! 0)"
    using k unfolding s z .
  have "length (g m') = length (g m)" using gm' by simp
  then show ?thesis using m' k' by blast
qed

lemma foldE_dims_g:
  assumes ok: "timeline_ok m1" and ker: "kernels_ok m1" and g0: "g_ok m1 {} (g m1 ! 0)"
    and lg: "0 < length (g m1)"
  shows "\<exists>m'. foldE compute_weights_dim_i [0..<n] m1 = Inr m' \<and> same_data m1 m'
     \<and> length (g m') = length (g m1)
     \<and> g_ok m1 (if n = 0 then {} else {..<n_nodes m1} \<times> {..<length (decays m1)}) (g m' ! 0)"
proof (induction n)
  case 0
  then show ?case using g0 by (simp add: same_data_refl)
next
  case (Suc n)
  obtain m2 where run: "foldE compute_weights_dim_i [0..<n] m1 = Inr m2"
    and sd: "same_data m1 m2" and l2: "length (g m2) = length (g m1)"
    and k2: "g_ok m1 (if n = 0 then {} else {..<n_nodes m1} \<times> {..<length (decays m1)}) (g m2 ! 0)"
    using Suc.IH by blast
  note f = same_data_fields [OF sd]
  note e = same_data_ok [OF sd]
  have ok2: "timeline_ok m2" "kernels_ok m2" using ok ker by (simp_all add: e)
  have k2': "g_ok m2 (if n = 0 then {} else {..<n_nodes m1} \<times> {..<length (decays m1)}) (g m2 ! 0)"
    using k2 by (simp add: e)
  have lg2: "0 < length (g m2)" using lg l2 by simp
  obtain m' where step: "compute_weights_dim_i n m2 = Inr m'"
    and l': "length (g m') = length (g m2)"
    and k': "g_ok m2 (if n = 0
                     then (if n = 0 then {} else {..<n_nodes m1} \<times> {..<length (decays m1)})
                          \<union> {..<n_nodes m2} \<times> {..<length (decays m2)}
                     else (if n = 0 then {} else {..<n_nodes m1} \<times> {..<length (decays m1)}))
                (g m' ! 0)"
    using compute_weights_dim_i_g [OF ok2 k2' lg2, of n] by blast
  have "foldE compute_weights_dim_i [0..<Suc n] m1 = Inr m'"
    using run step by (simp add: foldE_upt_Suc)
  moreover have "same_data m1 m'"
    using same_data_trans [OF sd compute_weights_dim_i_same_data [OF step]] .
  moreover have "g_ok m1 ({..<n_nodes m1} \<times> {..<length (decays m1)}) (g m' ! 0)"
    using k' by (cases "n = 0") (simp_all add: e f)
  ultimately show ?case using l' l2 by auto
qed

lemma compute_weights_succeeds:
  assumes ok: "timeline_ok m" and ker: "kernels_ok m" and nz: "n_nodes m \<noteq> 0"
  shows "\<exists>mW. compute_weights m = Inr mW
     \<and> n_nodes mW = n_nodes m \<and> n_total_jumps mW = n_total_jumps m \<and> decays mW = decays m
     \<and> g_ok m ({..<n_nodes m} \<times> {..<length (decays m)}) (g mW ! 0)"
proof -
  obtain m1 where a: "allocate_weights m = Inr m1"
    using nz by (simp add: allocate_weights_def Let_def)
  note A = allocate_weights_arrays [OF a]
  let ?m0 = "m\<lparr>Total_events := n_total_jumps m - n_jumps_per_node m ! n_nodes m,
                 sum_G := sum_G m1\<rparr>"
  note f1 = same_data_fields [OF A(1), simplified]
  note e1 = same_data_ok [OF A(1)]
  have ok0: "timeline_ok ?m0 = timeline_ok m" "kernels_ok ?m0 = kernels_ok m"
    "g_ok ?m0 = g_ok m"
    by (simp_all add: fun_eq_iff timeline_ok_def kernels_ok_def g_ok_def g_direct_def
        get_index_def get_n_decays_def)
  have ok1: "timeline_ok m1" "kernels_ok m1" using ok ker by (simp_all add: e1 ok0)
  have z: "g_ok m1 {} (g m1 ! 0)"
    unfolding e1 ok0 g_ok_def
    using A(8) get_index_bound [of 0 m] by simp
  have lg: "0 < length (g m1)" using A(7) nz by simp
  obtain m2 where run: "foldE compute_weights_dim_i [0..<n_nodes m1] m1 = Inr m2"
    and sd: "same_data m1 m2"
    and k: "g_ok m1 (if n_nodes m1 = 0 then {} else {..<n_nodes m1} \<times> {..<length (decays m1)})
              (g m2 ! 0)"
    using foldE_dims_g [OF ok1 z lg, of "n_nodes m1"] by blast
  note f2 = same_data_fields [OF sd]
  have c: "compute_weights m = Inr (m2\<lparr>weights_computed := True\<rparr>)"
    using a run by (simp add: compute_weights_def)
  have "g_ok m ({..<n_nodes m} \<times> {..<length (decays m)}) (g m2 ! 0)"
    using k nz by (simp add: e1 ok0 f1)
  then show ?thesis using c by (simp add: f2 f1)
qed

lemma ex_empty_fields:
  "n_total_jumps ex_empty = 0" "global_timestamps ex_empty = [0]" "type_n ex_empty = [0]"
  "n_nodes ex_empty = 1"
  by (simp_all add: ex_empty_def ex_object_def set_data_def base_set_data_def new_model_def
      sort_index_def Let_def upt_small)

lemma ex_lag_fields:
  "n_total_jumps ex_lag = 2" "global_timestamps ex_lag = [0, 1, 2]" "type_n ex_lag = [0, 1, 1]"
  "n_nodes ex_lag = 1" "decays ex_lag = [1]" "lags ex_lag = [1]" "end_time ex_lag = 3"
  by (simp_all add: ex_lag_def set_data_def base_set_data_def new_model_def
      sort_index_def Let_def upt_small)

lemma ex_spec_fields:
  "n_total_jumps ex_spec = 3" "global_timestamps ex_spec = [0, 1, 2, 3]"
  "type_n ex_spec = [0, 1, 2, 1]" "n_nodes ex_spec = 2" "decays ex_spec = [1]"
  "lags ex_spec = [0]" "end_time ex_spec = 4"
  by (simp_all add: ex_spec_def set_data_def base_set_data_def new_model_def
      sort_index_def Let_def upt_small)

lemma ex_lag_timeline: "timeline_ok ex_lag"
  by (simp add: timeline_ok_def ex_lag_fields)

lemma ex_spec_timeline: "timeline_ok ex_spec"
  by (simp add: timeline_ok_def ex_spec_fields)

lemma merged_length:
  "length (concat (map (\<lambda>j. map (\<lambda>k. tss ! j ! k) [0..<map length tss ! j]) [0..<length tss]))
     = sum_list (map length tss)"
proof -
  have "map length (map (\<lambda>j. map (\<lambda>k. tss ! j ! k) [0..<map length tss ! j]) [0..<length tss])
      = map (\<lambda>j. map length tss ! j) [0..<length tss]"
    by simp
  also have "\<dots> = map length tss"
    using map_nth [of "map length tss"] by simp
  finally show ?thesis by (simp only: length_concat)
qed

lemma set_data_timeline:
  assumes "1 \<le> sum_list (map length tss)"
  shows "timeline_ok (set_data tss gn T m0)"
proof -
  let ?L = "0 # concat (map (\<lambda>j. map (\<lambda>k. tss ! j ! k) [0..<map length tss ! j])
                          [0..<length tss])"
  have ts: "global_timestamps (set_data tss gn T m0) = map fst (sort_index ?L)"
    by (simp add: set_data_def base_set_data_def Let_def)
  have "length (global_timestamps (set_data tss gn T m0)) = length ?L"
    unfolding ts sort_index_def by simp
  then have l1: "length (global_timestamps (set_data tss gn T m0)) = sum_list (map length tss) + 1"
    by (simp add: merged_length)
  have l2: "length (type_n (set_data tss gn T m0)) = sum_list (map length tss) + 1"
    by (simp add: set_data_def base_set_data_def Let_def)
  have s: "sorted (global_timestamps (set_data tss gn T m0))"
    unfolding ts sort_index_def by (rule sorted_sort_key)
  show ?thesis
    unfolding timeline_ok_def using l1 l2 s assms by (simp add: set_data_counts)
qed

text \<open>
  Claim C2, amended. On a sorted timeline, with the scan pointer at an index \<open>p\<close> in
  \<open>1..M\<close>, the \<^verbatim>\<open>while\<close> loop at step \<open>k\<close> returns a pointer \<open>q \<ge> p\<close> such that a not yet
  scanned event \<open>e\<close> is passed at this step exactly when \<open>t_e < t_k - lag\<close>, strictly (an
  event with \<open>t_e = t_k - lag\<close> is not included at step \<open>k\<close>); each event of source
  dimension \<open>j\<close> that is passed contributes \<open>decay exp (- decay (t_k - lag - t_e))\<close> to \<open>g\<close>
  (when \<open>i = 0\<close>) and \<open>1 - exp (- decay (t_k - lag - t_e))\<close> to \<open>G\<close>, once, and the pointer
  never moves back.
\<close>

theorem scan_folds_strictly_earlier:
  assumes "timeline_ok m" and "1 \<le> p" and "p \<le> n_total_jumps m"
  shows "\<exists>q. scan m i j u k t_k decay lag p g_i G_i =
           Inr (q,
                if i = 0 then add_at g_i (get_index m k j u) (g_contrib m j decay lag t_k [p..<q])
                else g_i,
                add_at G_i (get_index m k j u) (G_contrib m j decay lag t_k [p..<q]))
         \<and> p \<le> q
         \<and> (\<forall>e. p \<le> e \<and> e \<le> n_total_jumps m \<longrightarrow>
               (e < q \<longleftrightarrow> global_timestamps m ! e < t_k - lag))"
proof -
  have lens: "length (global_timestamps m) = n_total_jumps m + 1"
    "length (type_n m) = n_total_jumps m + 1" and srt: "sorted (global_timestamps m)"
    using assms(1) by (simp_all add: timeline_ok_def)
  obtain q where q: "scan m i j u k t_k decay lag p g_i G_i =
           Inr (q,
                if i = 0 then add_at g_i (get_index m k j u) (g_contrib m j decay lag t_k [p..<q])
                else g_i,
                add_at G_i (get_index m k j u) (G_contrib m j decay lag t_k [p..<q]))"
    and pq: "p \<le> q"
    and el: "\<forall>e. p \<le> e \<and> e < q \<longrightarrow> global_timestamps m ! e < t_k - lag"
    and stop: "q \<le> n_total_jumps m \<longrightarrow> \<not> global_timestamps m ! q < t_k - lag"
    using scan_result [OF lens assms(2,3), of i j u k t_k decay lag g_i G_i] by blast
  have "e < q \<longleftrightarrow> global_timestamps m ! e < t_k - lag"
    if e: "p \<le> e \<and> e \<le> n_total_jumps m" for e
  proof
    assume "e < q"
    then show "global_timestamps m ! e < t_k - lag" using el e by simp
  next
    assume a: "global_timestamps m ! e < t_k - lag"
    show "e < q"
    proof (rule ccontr)
      assume "\<not> e < q"
      then have qe: "q \<le> e" by simp
      then have "q \<le> n_total_jumps m" using e by simp
      then have "\<not> global_timestamps m ! q < t_k - lag" using stop by simp
      moreover have "global_timestamps m ! q \<le> global_timestamps m ! e"
        using srt qe e lens by (simp add: sorted_nth_mono)
      ultimately show False using a by simp
    qed
  qed
  then show ?thesis using q pq by blast
qed

theorem scan_folds_strictly_earlier_witness:
  "timeline_ok ex_lag \<and> (1 :: nat) \<le> 1 \<and> 1 \<le> n_total_jumps ex_lag
   \<and> (\<exists>q. scan ex_lag 0 0 0 3 3 1 1 1 [0, 0, 0, 0] [0, 0, 0, 0] =
           Inr (q,
                if (0 :: nat) = 0
                then add_at [0, 0, 0, 0] (get_index ex_lag 3 0 0) (g_contrib ex_lag 0 1 1 3 [1..<q])
                else [0, 0, 0, 0],
                add_at [0, 0, 0, 0] (get_index ex_lag 3 0 0) (G_contrib ex_lag 0 1 1 3 [1..<q]))
         \<and> 1 \<le> q
         \<and> (\<forall>e. 1 \<le> e \<and> e \<le> n_total_jumps ex_lag \<longrightarrow>
               (e < q \<longleftrightarrow> global_timestamps ex_lag ! e < 3 - 1)))"
  using scan_folds_strictly_earlier [of ex_lag 1 0 0 0 3 3 1 1 "[0, 0, 0, 0]" "[0, 0, 0, 0]"]
  by (simp add: ex_lag_timeline ex_lag_fields)

text \<open>
  Claim C2 as stated fails at the dataset with events at times 1 and 2 and lag 1: at step
  \<open>k = 2\<close> the first event has \<open>t_e = t_k - lag\<close> exactly, the loop leaves the pointer on it
  and adds nothing, and \<open>g\<close> at step 2 is 0, where the inclusive gate would give
  \<open>decay exp 0 = 1\<close>.
\<close>

theorem boundary_event_not_folded_in:
  "global_timestamps ex_lag ! 1 = global_timestamps ex_lag ! 2 - lags ex_lag ! 0
   \<and> type_n ex_lag ! 1 = 0 + 1
   \<and> scan ex_lag 0 0 0 2 2 1 1 1 [0, 0, 0, 0] [0, 0, 0, 0] = Inr (1, [0, 0, 0, 0], [0, 0, 0, 0])
   \<and> (\<exists>mW. compute_weights ex_lag = Inr mW \<and> (g mW ! 0) ! get_index mW 2 0 0 = 0)
   \<and> g_direct_inclusive ex_lag 0 1 1 2 = 1"
  by (simp add: ex_lag_def set_data_def base_set_data_def new_model_def
      sort_index_def Let_def upt_small g_direct_inclusive_def
      compute_weights_def allocate_weights_def allocate_step_def compute_weights_dim_i_def
      weights_gG_def weights_pass_def weights_step_def get_index_def get_n_decays_def
      H12_step_def H3_step_def scan.simps)

text \<open>
  Claim C5. For a single kernel with lag 0 on a sorted merged timeline, \<open>compute_weights\<close>
  returns, and the recursively maintained \<open>g\<close> at every merged event \<open>k\<close> and source
  dimension \<open>j\<close> equals the direct pairwise sum of \<open>decay exp (- decay (t_k - t_e))\<close> over
  all strictly earlier events of dimension \<open>j\<close>.
\<close>

theorem recursive_g_is_brute_force:
  assumes "timeline_ok m" and "n_nodes m \<noteq> 0" and "decays m = [decay]" and "lags m = [0]"
    and "j < n_nodes m" and "1 \<le> k" and "k \<le> n_total_jumps m"
  shows "\<exists>mW. compute_weights m = Inr mW
     \<and> (g mW ! 0) ! get_index mW k j 0 = brute_force_g m j decay k"
proof -
  have ker: "kernels_ok m" using assms(3,4) by (simp add: kernels_ok_def)
  obtain mW where c: "compute_weights m = Inr mW"
    and f: "n_nodes mW = n_nodes m" "n_total_jumps mW = n_total_jumps m" "decays mW = decays m"
    and k: "g_ok m ({..<n_nodes m} \<times> {..<length (decays m)}) (g mW ! 0)"
    using compute_weights_succeeds [OF assms(1) ker assms(2)] by blast
  have "get_index mW k j 0 = get_index m k j 0"
    by (simp add: get_index_def get_n_decays_def f)
  moreover have "(g mW ! 0) ! get_index m k j 0 = g_direct m j (decays m ! 0) (lags m ! 0) k"
    using k assms(3,5,6,7) by (simp add: g_ok_def)
  moreover have "g_direct m j (decays m ! 0) (lags m ! 0) k = brute_force_g m j decay k"
    using assms(3,4) by (simp add: g_direct_def brute_force_g_def)
  ultimately show ?thesis using c by simp
qed

theorem recursive_g_is_brute_force_witness:
  "timeline_ok ex_spec \<and> n_nodes ex_spec \<noteq> 0 \<and> decays ex_spec = [1] \<and> lags ex_spec = [0]
   \<and> (0 :: nat) < n_nodes ex_spec \<and> (1 :: nat) \<le> 3 \<and> 3 \<le> n_total_jumps ex_spec
   \<and> (\<exists>mW. compute_weights ex_spec = Inr mW
        \<and> (g mW ! 0) ! get_index mW 3 0 0 = brute_force_g ex_spec 0 1 3)
   \<and> brute_force_g ex_spec 0 1 3 = exp (- 2)"
  using recursive_g_is_brute_force [of ex_spec 1 0 3]
  by (simp add: ex_spec_timeline ex_spec_fields brute_force_g_def upt_small)

text \<open>
  Claim C10, at the dataset with one modelled dimension and no event (\<open>M = 0\<close>):
  \<open>global_timestamps\<close> has the single entry of the virtual start event, and at the terminal
  step \<open>k = 1\<close> the loop condition reads \<open>global_timestamps[1]\<close>, past the end of the array;
  the guard \<^verbatim>\<open>if (last_scanned_index > n_total_jumps) break\<close> comes after the read. On a
  sorted timeline with at least one event and non-negative lags no such read happens
  (\<open>compute_weights_succeeds\<close>).
\<close>

theorem scan_pointer_out_of_bounds_on_empty_timeline:
  "n_nodes ex_empty = 1 \<and> n_total_jumps ex_empty = 0 \<and> length (global_timestamps ex_empty) = 1
   \<and> compute_weights ex_empty = Inl OutOfBounds"
  by (simp add: ex_empty_def ex_object_def set_data_def base_set_data_def new_model_def
      sort_index_def Let_def upt_small
      compute_weights_def allocate_weights_def allocate_step_def compute_weights_dim_i_def
      weights_gG_def weights_pass_def weights_step_def get_index_def get_n_decays_def
      H12_step_def H3_step_def scan.simps)


end
